theory Spec2Isabelle
  imports Complex_Main "HOL-Library.Sublist"
begin

section \<open>yolov4.py: the flow estimate of one video\<close>

subsection \<open>The trailing window of per-frame counts\<close>

text \<open>
  \<^verbatim>\<open>car_counts\<close> is a deque of pairs \<^verbatim>\<open>(current_time, car_count)\<close>. The clock readings of
  \<^verbatim>\<open>time.time()\<close> are modelled as exact rationals (every finite float is one) and
  \<^verbatim>\<open>current_time - 30\<close> as the exact difference; a count is a natural number.
\<close>

type_synonym sample = "rat \<times> nat"

text \<open>
  \<^verbatim>\<open>while car_counts and car_counts[0][0] < current_time - 30: car_counts.popleft()\<close>
\<close>

fun evict :: "rat \<Rightarrow> sample list \<Rightarrow> sample list" where
  "evict current_time [] = []"
| "evict current_time (s # car_counts) =
     (if fst s < current_time - 30 then evict current_time car_counts else s # car_counts)"

text \<open>
  One pass of the frame loop over the deque: \<^verbatim>\<open>car_counts.append((current_time, car_count))\<close>,
  then the eviction loop with the same \<^verbatim>\<open>current_time\<close>.
\<close>

definition observe :: "sample list \<Rightarrow> sample \<Rightarrow> sample list" where
  "observe car_counts s = evict (fst s) (car_counts @ [s])"

text \<open>\<^verbatim>\<open>car_count_values = [count for _, count in car_counts]\<close>\<close>

definition snapshot :: "sample list \<Rightarrow> nat list" where
  "snapshot car_counts = map snd car_counts"

subsection \<open>Peaks of the count sequence\<close>

text \<open>
  \<^verbatim>\<open>find_peaks(car_count_values)\<close> is called with no condition, so its result is the index
  array of SciPy's local-maxima scan over the values:
  \<^verbatim>\<open>
    i = 1; i_max = x.shape[0] - 1
    while i < i_max:
        if x[i - 1] < x[i]:
            i_ahead = i + 1
            while i_ahead < i_max and x[i_ahead] == x[i]:
                i_ahead += 1
            if x[i_ahead] < x[i]:
                left_edge = i; right_edge = i_ahead - 1
                midpoints[m] = (left_edge + right_edge) // 2; m += 1
                i = i_ahead
        i += 1
  \<close>
  \<open>plateau_end\<close> is the inner loop, \<open>local_maxima_1d\<close> the outer one from index \<open>i\<close> on.
\<close>

function plateau_end :: "'a::linorder list \<Rightarrow> nat \<Rightarrow> nat \<Rightarrow> nat" where
  "plateau_end x i i_ahead =
     (if i_ahead + 1 < length x \<and> x ! i_ahead = x ! i
      then plateau_end x i (i_ahead + 1) else i_ahead)"
  by pat_completeness auto
termination
  by (relation "measure (\<lambda>(x, i, i_ahead). length x - i_ahead)") auto

declare plateau_end.simps [simp del]

function local_maxima_1d :: "'a::linorder list \<Rightarrow> nat \<Rightarrow> nat list" where
  "local_maxima_1d x i =
     (if i + 1 < length x then
        (if x ! (i - 1) < x ! i then
           (let i_ahead = plateau_end x i (i + 1) in
            if x ! i_ahead < x ! i
            then ((i + (i_ahead - 1)) div 2) # local_maxima_1d x (i_ahead + 1)
            else local_maxima_1d x (i + 1))
         else local_maxima_1d x (i + 1))
      else [])"
  by pat_completeness auto
termination
proof (relation "measure (\<lambda>(x, i). length x - i)")
  show "wf (measure (\<lambda>(x :: 'a list, i). length x - i))"
    by simp
next
  fix x :: "'a list" and i i_ahead :: nat
  assume "i + 1 < length x" and "i_ahead = plateau_end x i (i + 1)"
  have "j \<le> plateau_end x i j" for j
  proof (induction x i j rule: plateau_end.induct)
    case (1 x i i_ahead)
    show ?case
    proof (cases "i_ahead + 1 < length x \<and> x ! i_ahead = x ! i")
      case True
      with 1 have "i_ahead + 1 \<le> plateau_end x i (i_ahead + 1)"
        by simp
      with True show ?thesis
        by (subst plateau_end.simps) simp
    next
      case False
      then show ?thesis
        by (subst plateau_end.simps) auto
    qed
  qed
  from this [of "i + 1"] have "i + 1 \<le> plateau_end x i (i + 1)" .
  with \<open>i + 1 < length x\<close> \<open>i_ahead = plateau_end x i (i + 1)\<close>
  show "((x, i_ahead + 1), (x, i)) \<in> measure (\<lambda>(x, i). length x - i)"
    by simp
next
  fix x :: "'a list" and i :: nat
  assume "i + 1 < length x"
  then show "((x, i + 1), (x, i)) \<in> measure (\<lambda>(x, i). length x - i)"
    by simp
next
  fix x :: "'a list" and i :: nat
  assume "i + 1 < length x"
  then show "((x, i + 1), (x, i)) \<in> measure (\<lambda>(x, i). length x - i)"
    by simp
qed

declare local_maxima_1d.simps [simp del]

definition find_peaks :: "'a::linorder list \<Rightarrow> nat list" where
  "find_peaks x = local_maxima_1d x 1"

text \<open>
  \<^verbatim>\<open>np.mean([car_count_values[i] for i in peaks]) if peaks.size > 0 else 0\<close>, the mean
  taken as the exact quotient.
\<close>

definition mean_peak_value :: "nat list \<Rightarrow> rat" where
  "mean_peak_value car_count_values =
     (let peaks = find_peaks car_count_values in
      if length peaks > 0
      then of_nat (sum_list (map (\<lambda>i. car_count_values ! i) peaks)) / of_nat (length peaks)
      else 0)"

subsection \<open>The pipeline of one video\<close>

text \<open>
  What the world outside \<^verbatim>\<open>detect_cars\<close> answers during one call. \<open>classes_txt\<close> holds the
  stripped lines of \<^verbatim>\<open>classes.txt\<close>, or \<open>None\<close> when the file cannot be opened;
  \<open>net_loads\<close> says whether \<^verbatim>\<open>cv.dnn.readNet\<close> and the model set-up return; \<open>video\<close> is
  what \<^verbatim>\<open>cv.VideoCapture\<close> gives for a path. A capture is finite: the end of \<open>frames\<close>
  is \<^verbatim>\<open>ret == False\<close>, at the end of the file or at a frame that cannot be read. A frame is either \<open>Detected classes current_time\<close> (the class
  ids \<^verbatim>\<open>model.detect\<close> returns and the clock reading taken after it) or \<open>Raises\<close>
  (\<^verbatim>\<open>cap.read\<close> or \<^verbatim>\<open>model.detect\<close> raises).
\<close>

datatype exn = OSError | ValueError | FileNotFoundError | IndexError | CvError

datatype frame = Detected "nat list" rat | Raises

record capture =
  isOpened :: bool
  frames :: "frame list"

record host =
  classes_txt :: "string list option"
  net_loads :: bool
  video :: "string \<Rightarrow> capture"

text \<open>The calls on the capture that matter for its release, in the order they happen.\<close>

datatype event = VideoCapture string | Release string

text \<open>
  \<^verbatim>\<open>sum(1 for classid in classes if class_name[classid] == "car")\<close>; the class ids of
  the detector are never negative, and an index outside \<^verbatim>\<open>class_name\<close> raises.
\<close>

fun car_count :: "string list \<Rightarrow> nat list \<Rightarrow> exn + nat" where
  "car_count class_name [] = Inr 0"
| "car_count class_name (classid # classes) =
     (if classid < length class_name
      then (case car_count class_name classes of
              Inl e \<Rightarrow> Inl e
            | Inr n \<Rightarrow> Inr ((if class_name ! classid = ''car'' then 1 else 0) + n))
      else Inl IndexError)"

text \<open>The \<^verbatim>\<open>while True\<close> loop over the frames, from the deque built so far.\<close>

fun frame_loop :: "string list \<Rightarrow> frame list \<Rightarrow> sample list \<Rightarrow> exn + sample list" where
  "frame_loop class_name [] car_counts = Inr car_counts"
| "frame_loop class_name (Raises # rest) car_counts = Inl CvError"
| "frame_loop class_name (Detected classes current_time # rest) car_counts =
     (case car_count class_name classes of
        Inl e \<Rightarrow> Inl e
      | Inr n \<Rightarrow> frame_loop class_name rest (observe car_counts (current_time, n)))"

text \<open>The body of the \<^verbatim>\<open>try\<close>: the value returned or the exception raised, with the events.\<close>

definition detect_cars_try :: "host \<Rightarrow> string \<Rightarrow> (exn + rat) \<times> event list" where
  "detect_cars_try h video_file =
     (case classes_txt h of
        None \<Rightarrow> (Inl OSError, [])
      | Some class_name \<Rightarrow>
          if ''car'' \<notin> set class_name then (Inl ValueError, [])
          else if \<not> net_loads h then (Inl CvError, [])
          else if \<not> isOpened (video h video_file)
          then (Inl FileNotFoundError, [VideoCapture video_file])
          else (case frame_loop class_name (frames (video h video_file)) [] of
                  Inl e \<Rightarrow> (Inl e, [VideoCapture video_file])
                | Inr car_counts \<Rightarrow>
                    (Inr (mean_peak_value (snapshot car_counts)),
                     [VideoCapture video_file, Release video_file])))"

text \<open>\<^verbatim>\<open>except Exception as e: ... return -1\<close>\<close>

definition detect_cars :: "host \<Rightarrow> string \<Rightarrow> rat \<times> event list" where
  "detect_cars h video_file =
     (case detect_cars_try h video_file of
        (Inl e, evs) \<Rightarrow> (- 1, evs)
      | (Inr mean_peak, evs) \<Rightarrow> (mean_peak, evs))"

section \<open>app.py: uploads and the activity life cycle\<close>

record 'p activity =
  id_a :: string
  userId :: string
  timestamp :: string
  videos :: "string list"
  status :: string
  result :: "'p option"
  trafficCounts :: "(string \<times> rat) list option"

record log_entry =
  id_l :: string
  action :: string
  timestamp_l :: string

text \<open>
  The module's stores, and the folders under the upload directory with the files saved
  in each.
\<close>

record 'p store =
  activities :: "'p activity list"
  recent_activities :: "log_entry list"
  users :: "string set"
  folders :: "string \<rightharpoonup> string list"

datatype body = Error string | ActivityId string | Success | Uncaught

type_synonym response = "body \<times> nat"

definition UPLOAD_FOLDER :: string where
  "UPLOAD_FOLDER = ''uploads''"

definition ALLOWED_EXTENSIONS :: "string set" where
  "ALLOWED_EXTENSIONS = {''mp4'', ''avi'', ''mov''}"

definition directions :: "string list" where
  "directions = [''north'', ''south'', ''east'', ''west'']"

text \<open>\<^verbatim>\<open>os.path.join\<close> of two components (POSIX).\<close>

definition path_join :: "string \<Rightarrow> string \<Rightarrow> string" where
  "path_join a b =
     (if b \<noteq> [] \<and> hd b = CHR ''/'' then b
      else if a = [] \<or> last a = CHR ''/'' then a @ b
      else a @ ''/'' @ b)"

text \<open>
  \<^verbatim>\<open>str.lower\<close> on one character: the letters \<open>A\<close> to \<open>Z\<close> (codes 65 to 90) move to
  \<open>a\<close> to \<open>z\<close>; no other character lowers to a letter of an allowed extension.
\<close>

definition lower :: "char \<Rightarrow> char" where
  "lower c =
     (let n = of_char c :: nat in if 65 \<le> n \<and> n \<le> 90 then char_of (n + 32) else c)"

text \<open>\<^verbatim>\<open>filename.rsplit(".", 1)[1]\<close>, for a name that has a dot.\<close>

definition extension :: "string \<Rightarrow> string" where
  "extension filename = rev (takeWhile (\<lambda>c. c \<noteq> CHR ''.'') (rev filename))"

definition allowed_file :: "string \<Rightarrow> bool" where
  "allowed_file filename =
     (CHR ''.'' \<in> set filename \<and> map lower (extension filename) \<in> ALLOWED_EXTENSIONS)"

text \<open>
  A request to \<^verbatim>\<open>/upload\<close>: the file names under the key \<^verbatim>\<open>videos\<close> and the form
  field \<^verbatim>\<open>userId\<close>, each \<open>None\<close> when the key is absent.
\<close>

record upload_request =
  request_videos :: "string list option"
  request_userId :: "string option"

text \<open>
  The loop over \<^verbatim>\<open>enumerate(videos)\<close>: \<open>None\<close> when a file is refused, else the URLs
  appended. Every name saved is \<^verbatim>\<open>secure_filename(f"{directions[i]}.mp4")\<close>, and a save
  is taken to succeed.
\<close>

fun save_videos :: "string \<Rightarrow> string list \<Rightarrow> string list \<Rightarrow> string list option" where
  "save_videos activity_id (direction # ds) (filename # vs) =
     (if filename \<noteq> [] \<and> allowed_file filename
      then map_option
             (\<lambda>urls. (''http://localhost:5000/videos/'' @ activity_id @ ''/'' @ direction @ ''.mp4'') # urls)
             (save_videos activity_id ds vs)
      else None)"
| "save_videos activity_id ds vs = Some []"

text \<open>
  \<^verbatim>\<open>upload_files\<close>. \<open>uuid_a\<close>, \<open>uuid_l\<close> are the two \<^verbatim>\<open>uuid.uuid4()\<close> strings,
  \<open>now_a\<close>, \<open>now_l\<close> the two \<^verbatim>\<open>utcnow().isoformat()\<close> strings. \<^verbatim>\<open>os.makedirs\<close> raises on a
  folder that exists, which Flask answers with status 500.
\<close>

definition upload_files ::
  "upload_request \<Rightarrow> string \<Rightarrow> string \<Rightarrow> string \<Rightarrow> string \<Rightarrow> 'p store \<Rightarrow> response \<times> 'p store" where
  "upload_files request uuid_a uuid_l now_a now_l st =
     (case (request_videos request, request_userId request) of
        (Some vids, Some user_id) \<Rightarrow>
          if length vids \<noteq> 4 then ((Error ''Exactly 4 videos are required'', 400), st)
          else
            let activity_folder = path_join UPLOAD_FOLDER uuid_a in
            if folders st activity_folder \<noteq> None then ((Uncaught, 500), st)
            else (case save_videos uuid_a directions vids of
                    None \<Rightarrow>
                      ((Error ''Invalid video file'', 400),
                       st\<lparr>folders := (folders st)(activity_folder := None)\<rparr>)
                  | Some video_urls \<Rightarrow>
                      ((ActivityId uuid_a, 201),
                       st\<lparr>folders := (folders st)(activity_folder \<mapsto> map (\<lambda>d. d @ ''.mp4'') directions),
                          users := insert user_id (users st),
                          activities := activities st @
                            [\<lparr>id_a = uuid_a, userId = user_id, timestamp = now_a,
                              videos = video_urls, status = ''pending'', result = None,
                              trafficCounts = None\<rparr>],
                          recent_activities := recent_activities st @
                            [\<lparr>id_l = uuid_l,
                              action = ''User '' @ [CHR 39] @ user_id @ [CHR 39] @ '' uploaded videos'',
                              timestamp_l = now_l\<rparr>]\<rparr>))
      | _ \<Rightarrow> ((Error ''Missing videos or userId'', 400), st))"

text \<open>
  The index of the first activity the loop of \<^verbatim>\<open>approve_activity\<close> and
  \<^verbatim>\<open>reject_activity\<close> stops at: its id is the one asked for and its status is pending.
\<close>

fun first_pending :: "string \<Rightarrow> 'p activity list \<Rightarrow> nat option" where
  "first_pending activity_id [] = None"
| "first_pending activity_id (a # rest) =
     (if id_a a = activity_id \<and> status a = ''pending'' then Some 0
      else map_option Suc (first_pending activity_id rest))"

text \<open>
  \<^verbatim>\<open>approve_activity\<close>. \<^verbatim>\<open>optimize_traffic\<close> comes from a module outside these sources and
  is a parameter: \<open>None\<close> when it raises, which Flask answers with status 500 before any
  store is touched.
\<close>

definition video_paths :: "string \<Rightarrow> string list" where
  "video_paths activity_id =
     map (\<lambda>direction. path_join (path_join UPLOAD_FOLDER activity_id) (direction @ ''.mp4''))
       directions"

definition approve_activity ::
  "host \<Rightarrow> (rat list \<Rightarrow> 'p option) \<Rightarrow> string \<Rightarrow> string \<Rightarrow> string \<Rightarrow> 'p store
     \<Rightarrow> response \<times> 'p store" where
  "approve_activity h optimize_traffic activity_id uuid_l now_l st =
     (case first_pending activity_id (activities st) of
        None \<Rightarrow> ((Error ''Activity not found or already processed'', 404), st)
      | Some k \<Rightarrow>
          let a = activities st ! k;
              num_cars_list = map (\<lambda>v. fst (detect_cars h v)) (video_paths activity_id)
          in (case optimize_traffic num_cars_list of
                None \<Rightarrow> ((Uncaught, 500), st)
              | Some res \<Rightarrow>
                  ((Success, 200),
                   st\<lparr>activities := (activities st)
                        [k := a\<lparr>status := ''approved'', result := Some res,
                                trafficCounts := Some
                                  [(''north'', num_cars_list ! 0), (''south'', num_cars_list ! 1),
                                   (''east'', num_cars_list ! 2), (''west'', num_cars_list ! 3)]\<rparr>],
                      recent_activities := recent_activities st @
                        [\<lparr>id_l = uuid_l,
                          action = ''Admin approved activity '' @ [CHR 39] @ activity_id @ [CHR 39]
                                   @ '' for user '' @ [CHR 39] @ userId a @ [CHR 39],
                          timestamp_l = now_l\<rparr>]\<rparr>)))"

definition reject_activity ::
  "string \<Rightarrow> string \<Rightarrow> string \<Rightarrow> 'p store \<Rightarrow> response \<times> 'p store" where
  "reject_activity activity_id uuid_l now_l st =
     (case first_pending activity_id (activities st) of
        None \<Rightarrow> ((Error ''Activity not found or already processed'', 404), st)
      | Some k \<Rightarrow>
          let a = activities st ! k
          in ((Success, 200),
              st\<lparr>activities := (activities st)[k := a\<lparr>status := ''rejected''\<rparr>],
                 recent_activities := recent_activities st @
                   [\<lparr>id_l = uuid_l,
                     action = ''Admin rejected activity '' @ [CHR 39] @ activity_id @ [CHR 39]
                              @ '' for user '' @ [CHR 39] @ userId a @ [CHR 39],
                     timestamp_l = now_l\<rparr>]\<rparr>))"

section \<open>Properties the code is checked against\<close>

text \<open>
  A flat peak of \<open>x\<close> is a run \<open>l..r\<close> of equal values, away from both ends of \<open>x\<close>, whose
  neighbours on both sides are strictly smaller; a strict peak is an index whose value is
  strictly greater than both neighbours (a flat peak with \<open>l = r\<close>).
\<close>

definition flat_peak :: "'a::linorder list \<Rightarrow> nat \<Rightarrow> nat \<Rightarrow> bool" where
  "flat_peak x l r =
     (0 < l \<and> l \<le> r \<and> r + 1 < length x \<and> x ! (l - 1) < x ! l \<and> x ! (r + 1) < x ! l
      \<and> (\<forall>k \<in> {l..r}. x ! k = x ! l))"

definition strict_peak :: "'a::linorder list \<Rightarrow> nat \<Rightarrow> bool" where
  "strict_peak x i = (0 < i \<and> i + 1 < length x \<and> x ! (i - 1) < x ! i \<and> x ! (i + 1) < x ! i)"

text \<open>
  A frame is fine when every class id it reports indexes the vocabulary, and has no car
  when moreover none of them names a car. A video is processable when the configuration
  loads with car in the vocabulary, the video opens and every frame is fine; it is
  carless when moreover no frame has a car; it is unusable when it does not open or one
  of its frames raises.
\<close>

fun frame_ok :: "string list \<Rightarrow> frame \<Rightarrow> bool" where
  "frame_ok class_name (Detected classes t) = (\<forall>c \<in> set classes. c < length class_name)"
| "frame_ok class_name Raises = False"

fun frame_no_car :: "string list \<Rightarrow> frame \<Rightarrow> bool" where
  "frame_no_car class_name (Detected classes t) =
     (\<forall>c \<in> set classes. c < length class_name \<and> class_name ! c \<noteq> ''car'')"
| "frame_no_car class_name Raises = False"

definition processable :: "host \<Rightarrow> string \<Rightarrow> bool" where
  "processable h p =
     (case classes_txt h of
        None \<Rightarrow> False
      | Some class_name \<Rightarrow>
          ''car'' \<in> set class_name \<and> net_loads h \<and> isOpened (video h p)
          \<and> list_all (frame_ok class_name) (frames (video h p)))"

definition carless :: "host \<Rightarrow> string \<Rightarrow> bool" where
  "carless h p =
     (case classes_txt h of
        None \<Rightarrow> False
      | Some class_name \<Rightarrow>
          ''car'' \<in> set class_name \<and> net_loads h \<and> isOpened (video h p)
          \<and> list_all (frame_no_car class_name) (frames (video h p)))"

definition unusable :: "host \<Rightarrow> string \<Rightarrow> bool" where
  "unusable h p = (\<not> isOpened (video h p) \<or> Raises \<in> set (frames (video h p)))"



text \<open>
  An upload is invalid when the videos or the user id are missing, the number of videos
  is not 4, or some file name is not allowed.
\<close>

definition invalid_upload :: "upload_request \<Rightarrow> bool" where
  "invalid_upload request =
     (case (request_videos request, request_userId request) of
        (Some vids, Some user_id) \<Rightarrow> length vids \<noteq> 4 \<or> (\<exists>v \<in> set vids. \<not> allowed_file v)
      | _ \<Rightarrow> True)"

section \<open>Example inputs\<close>

text \<open>
  A host whose vocabulary is \<open>class_name\<close>, whose network loads, and whose video files are
  those listed (any other path does not open); and the hosts and the store the examples
  below run on.
\<close>

definition host_with :: "string list \<Rightarrow> (string \<times> frame list) list \<Rightarrow> host" where
  "host_with class_name files =
     \<lparr>classes_txt = Some class_name, net_loads = True,
      video = (\<lambda>p. case map_of files p of
                      None \<Rightarrow> \<lparr>isOpened = False, frames = []\<rparr>
                    | Some fs \<Rightarrow> \<lparr>isOpened = True, frames = fs\<rparr>)\<rparr>"

definition example_host :: host where
  "example_host =
     host_with [''person'', ''car'']
       [(''uploads/a1/north.mp4'', [Detected [1] 1, Detected [1, 0, 1] 2, Detected [1] 3]),
        (''uploads/a1/south.mp4'', [Detected [0] 1]),
        (''uploads/a1/east.mp4'', [])]"

definition example_host_no_cars :: host where
  "example_host_no_cars =
     host_with [''person'', ''car'']
       [(''uploads/a1/north.mp4'', [Detected [0] 1, Detected [0, 0] 2, Detected [] 3]),
        (''uploads/a1/south.mp4'', [Detected [0] 1]),
        (''uploads/a1/east.mp4'', []),
        (''uploads/a1/west.mp4'', [Detected [] 1])]"

definition example_host_no_class :: host where
  "example_host_no_class =
     host_with [''person'', ''bicycle'']
       [(''uploads/a1/north.mp4'', [Detected [1] 1]),
        (''uploads/a1/south.mp4'', [Detected [0] 1]),
        (''uploads/a1/east.mp4'', []),
        (''uploads/a1/west.mp4'', [Detected [] 1])]"

definition example_store :: "rat list store" where
  "example_store =
     \<lparr>activities =
        [\<lparr>id_a = ''a1'', userId = ''u1'', timestamp = ''t0'', videos = [], status = ''pending'',
          result = None, trafficCounts = None\<rparr>,
         \<lparr>id_a = ''a0'', userId = ''u1'', timestamp = ''t0'', videos = [], status = ''approved'',
          result = Some [30, 20], trafficCounts = Some [(''north'', 3), (''south'', 2),
          (''east'', 0), (''west'', - 1)]\<rparr>],
      recent_activities = [], users = {''u1''},
      folders = [''uploads/a1'' \<mapsto> [''north.mp4'', ''south.mp4'', ''east.mp4'', ''west.mp4'']]\<rparr>"


section \<open>The trailing window\<close>

lemma evict_dropWhile: "evict t xs = dropWhile (\<lambda>s. fst s < t - 30) xs"
  by (induction xs) auto

lemma dropWhile_sorted_filter:
  "sorted (map fst xs) \<Longrightarrow> dropWhile (\<lambda>s. fst s < b) xs = filter (\<lambda>s. b \<le> fst s) xs"
proof (induction xs)
  case Nil
  then show ?case by simp
next
  case (Cons a xs)
  show ?case
  proof (cases "fst a < b")
    case True
    with Cons show ?thesis by simp
  next
    case False
    with Cons.prems have "\<forall>s \<in> set xs. b \<le> fst s"
      by auto
    then have "filter (\<lambda>s. b \<le> fst s) xs = xs"
      by (simp add: filter_id_conv)
    with False show ?thesis by simp
  qed
qed

lemma window_filter:
  "sorted (map fst obs) \<Longrightarrow> obs \<noteq> [] \<Longrightarrow>
   foldl observe [] obs = filter (\<lambda>u. fst (last obs) - 30 \<le> fst u) obs"
proof (induction obs rule: rev_induct)
  case Nil
  then show ?case by simp
next
  case (snoc s obs)
  from snoc.prems have so: "sorted (map fst obs)" and le: "\<forall>u \<in> set obs. fst u \<le> fst s"
    by (auto simp: sorted_append)
  show ?case
  proof (cases "obs = []")
    case True
    then show ?thesis by (simp add: observe_def)
  next
    case False
    with snoc.IH so have w: "foldl observe [] obs = filter (\<lambda>u. fst (last obs) - 30 \<le> fst u) obs"
      by simp
    from False le have ll: "fst (last obs) \<le> fst s"
      by simp
    have srt: "sorted (map fst (filter (\<lambda>u. fst (last obs) - 30 \<le> fst u) obs @ [s]))"
      using so le by (auto simp: sorted_append intro: sorted_filter)
    have "foldl observe [] (obs @ [s])
        = dropWhile (\<lambda>u. fst u < fst s - 30) (filter (\<lambda>u. fst (last obs) - 30 \<le> fst u) obs @ [s])"
      by (simp add: observe_def evict_dropWhile w)
    also have "\<dots> = filter (\<lambda>u. fst s - 30 \<le> fst u) (filter (\<lambda>u. fst (last obs) - 30 \<le> fst u) obs @ [s])"
      by (rule dropWhile_sorted_filter [OF srt])
    also have "\<dots> = filter (\<lambda>u. fst s - 30 \<le> fst u) (obs @ [s])"
      using ll by (auto intro: filter_cong)
    finally show ?thesis by simp
  qed
qed

lemma observe_suffix: "suffix (observe w s) (w @ [s])"
  unfolding observe_def evict_dropWhile by (rule suffix_dropWhile)

lemma window_suffix: "suffix (foldl observe [] obs) obs"
proof (induction obs rule: rev_induct)
  case Nil
  then show ?case by simp
next
  case (snoc s obs)
  have "suffix (observe (foldl observe [] obs) s) (foldl observe [] obs @ [s])"
    by (rule observe_suffix)
  moreover from snoc have "suffix (foldl observe [] obs @ [s]) (obs @ [s])"
    by simp
  ultimately have "suffix (observe (foldl observe [] obs) s) (obs @ [s])"
    by (rule suffix_order.trans)
  then show ?case by simp
qed

lemma observe_drop: "\<exists>k. observe w s = drop k (w @ [s])"
  using observe_suffix [of w s] by (metis suffix_def append_eq_conv_conj)

text \<open>
  C1 (amended). For observations whose timestamps never decrease, after each observe
  the window holds exactly the samples observed so far whose timestamp is within 30
  seconds of the newest one, in insertion order. For any observations at all, the
  window is a suffix of what was observed, and one observe drops samples from the oldest
  end only.
\<close>

theorem window_after_each_observe:
  assumes "sorted (map fst (obs @ [s]))"
  shows "foldl observe [] (obs @ [s]) = filter (\<lambda>u. \<bar>fst s - fst u\<bar> \<le> 30) (obs @ [s])
       \<and> suffix (foldl observe [] (obs @ [s])) (obs @ [s])
       \<and> (\<exists>k. observe w s = drop k (w @ [s]))"
proof -
  from assms have le: "\<forall>u \<in> set (obs @ [s]). fst u \<le> fst s"
    by (auto simp: sorted_append)
  have "foldl observe [] (obs @ [s]) = filter (\<lambda>u. fst (last (obs @ [s])) - 30 \<le> fst u) (obs @ [s])"
    using assms by (intro window_filter) simp_all
  also have "\<dots> = filter (\<lambda>u. \<bar>fst s - fst u\<bar> \<le> 30) (obs @ [s])"
    using le by (intro filter_cong) auto
  finally show ?thesis
    using window_suffix [of "obs @ [s]"] observe_drop [of w s] by blast
qed

theorem window_after_each_observe_witness:
  "sorted (map fst ([(0, 1), (20, 2)] @ [(40, 3 :: nat)] :: sample list))
   \<and> foldl observe [] ([(0, 1), (20, 2)] @ [(40, 3)]) = [(20, 2), (40, 3)]"
  using window_after_each_observe [of "[(0, 1), (20, 2)]" "(40, 3)" "[]"]
  by simp

text \<open>
  C1 as stated fails when a clock reading is smaller than an earlier one: the sample
  taken at time 0 stays in the window after the observation at time 40, because the
  oldest sample, taken at 40, is not evicted.
\<close>

theorem window_out_of_order_counterexample:
  "foldl observe [] [(40, 1), (0, 2), (40, 3)] = [(40, 1), (0, 2), (40, 3)]
   \<and> \<not> \<bar>(40 :: rat) - fst (0 :: rat, 2 :: nat)\<bar> \<le> 30"
  by (simp add: observe_def)

section \<open>The peak scan\<close>

lemma plateau_end_ge: "j \<le> plateau_end x i j"
proof (induction x i j rule: plateau_end.induct)
  case (1 x i i_ahead)
  show ?case
  proof (cases "i_ahead + 1 < length x \<and> x ! i_ahead = x ! i")
    case True
    with 1 have "i_ahead + 1 \<le> plateau_end x i (i_ahead + 1)" by simp
    with True show ?thesis by (subst plateau_end.simps) simp
  next
    case False
    then show ?thesis by (subst plateau_end.simps) auto
  qed
qed

lemma plateau_end_less: "j < length x \<Longrightarrow> plateau_end x i j < length x"
proof (induction x i j rule: plateau_end.induct)
  case (1 x i i_ahead)
  show ?case
  proof (cases "i_ahead + 1 < length x \<and> x ! i_ahead = x ! i")
    case True
    with 1 have "plateau_end x i (i_ahead + 1) < length x" by simp
    with True show ?thesis by (subst plateau_end.simps) simp
  next
    case False
    with 1 show ?thesis by (subst plateau_end.simps) auto
  qed
qed

lemma plateau_end_flat: "j \<le> k \<Longrightarrow> k < plateau_end x i j \<Longrightarrow> x ! k = x ! i"
proof (induction x i j rule: plateau_end.induct)
  case (1 x i i_ahead)
  show ?case
  proof (cases "i_ahead + 1 < length x \<and> x ! i_ahead = x ! i")
    case True
    then have eq: "plateau_end x i i_ahead = plateau_end x i (i_ahead + 1)"
      by (subst plateau_end.simps) simp
    show ?thesis
    proof (cases "k = i_ahead")
      case True
      with \<open>i_ahead + 1 < length x \<and> x ! i_ahead = x ! i\<close> show ?thesis by simp
    next
      case False
      with 1 True eq show ?thesis by simp
    qed
  next
    case False
    then have "plateau_end x i i_ahead = i_ahead"
      by (subst plateau_end.simps) auto
    with 1 show ?thesis by simp
  qed
qed

lemma plateau_end_stop:
  "plateau_end x i j + 1 < length x \<Longrightarrow> x ! (plateau_end x i j) \<noteq> x ! i"
proof (induction x i j rule: plateau_end.induct)
  case (1 x i i_ahead)
  show ?case
  proof (cases "i_ahead + 1 < length x \<and> x ! i_ahead = x ! i")
    case True
    then have eq: "plateau_end x i i_ahead = plateau_end x i (i_ahead + 1)"
      by (subst plateau_end.simps) simp
    with 1 True show ?thesis by simp
  next
    case False
    then have "plateau_end x i i_ahead = i_ahead"
      by (subst plateau_end.simps) auto
    with 1 False show ?thesis by auto
  qed
qed

lemma plateau_flat_from:
  "i \<le> k \<Longrightarrow> k < plateau_end x i (i + 1) \<Longrightarrow> x ! k = x ! i"
proof (cases "k = i")
  case True
  then show ?thesis by simp
next
  case False
  assume "i \<le> k" and "k < plateau_end x i (i + 1)"
  with False have "i + 1 \<le> k" by simp
  then show ?thesis
    using \<open>k < plateau_end x i (i + 1)\<close> by (rule plateau_end_flat)
qed

lemma flat_peak_at_start:
  assumes "flat_peak x i r"
  shows "r + 1 = plateau_end x i (i + 1) \<and> x ! (plateau_end x i (i + 1)) < x ! i"
proof -
  define e where "e = plateau_end x i (i + 1)"
  from assms have r1: "i \<le> r" and r2: "r + 1 < length x" and r3: "x ! (r + 1) < x ! i"
    unfolding flat_peak_def by blast+
  from assms have flat: "\<forall>k \<in> {i..r}. x ! k = x ! i"
    unfolding flat_peak_def by blast
  have "\<not> r + 1 < e"
  proof
    assume "r + 1 < e"
    moreover from r1 have "i \<le> r + 1" by simp
    ultimately have "x ! (r + 1) = x ! i"
      unfolding e_def by (simp only: plateau_flat_from)
    with r3 show False by simp
  qed
  moreover have "\<not> e \<le> r"
  proof
    assume "e \<le> r"
    have "i + 1 \<le> e"
      unfolding e_def by (rule plateau_end_ge)
    with \<open>e \<le> r\<close> have "e \<in> {i..r}" by simp
    with flat have "x ! e = x ! i" by blast
    moreover from \<open>e \<le> r\<close> r2 have "e + 1 < length x" by simp
    then have "x ! e \<noteq> x ! i"
      unfolding e_def by (rule plateau_end_stop)
    ultimately show False by simp
  qed
  ultimately have "r + 1 = e" by simp
  with r3 show ?thesis unfolding e_def by metis
qed

lemma flat_peak_inside:
  assumes "flat_peak x l r" and "i < l" and "l \<le> plateau_end x i (i + 1)"
    and "x ! (plateau_end x i (i + 1)) < x ! i"
  shows False
proof -
  define e where "e = plateau_end x i (i + 1)"
  from assms(1) have up: "x ! (l - 1) < x ! l"
    unfolding flat_peak_def by blast
  from assms(2,3) have "i \<le> l - 1" and "l - 1 < e"
    unfolding e_def by simp_all
  then have a: "x ! (l - 1) = x ! i"
    unfolding e_def by (rule plateau_flat_from)
  have "x ! l \<le> x ! i"
  proof (cases "l = e")
    case True
    with assms(4) show ?thesis unfolding e_def by simp
  next
    case False
    with assms(3) have "l < e" unfolding e_def by simp
    moreover from assms(2) have "i \<le> l" by simp
    ultimately have "x ! l = x ! i"
      unfolding e_def by (simp only: plateau_flat_from)
    then show ?thesis by simp
  qed
  with a up show False by simp
qed


lemma flat_peakD:
  assumes "flat_peak x l r"
  shows "0 < l" "l \<le> r" "r + 1 < length x" "x ! (l - 1) < x ! l" "x ! (r + 1) < x ! l"
  using assms unfolding flat_peak_def by blast+

lemma lm_nil: "\<not> i + 1 < length x \<Longrightarrow> local_maxima_1d x i = []"
  by (subst local_maxima_1d.simps) simp

lemma lm_skip:
  "i + 1 < length x \<Longrightarrow> \<not> (x ! (i - 1) < x ! i \<and> x ! (plateau_end x i (i + 1)) < x ! i) \<Longrightarrow>
   local_maxima_1d x i = local_maxima_1d x (i + 1)"
  by (subst local_maxima_1d.simps) (auto simp: Let_def)

lemma lm_peak:
  "i + 1 < length x \<Longrightarrow> x ! (i - 1) < x ! i \<Longrightarrow> x ! (plateau_end x i (i + 1)) < x ! i \<Longrightarrow>
   local_maxima_1d x i =
     ((i + (plateau_end x i (i + 1) - 1)) div 2) # local_maxima_1d x (plateau_end x i (i + 1) + 1)"
  by (subst local_maxima_1d.simps) (simp add: Let_def)

lemma lm_induct [case_names nil skip peak]:
  assumes nil: "\<And>i. \<not> i + 1 < length x \<Longrightarrow> P i"
    and skip: "\<And>i. i + 1 < length x \<Longrightarrow>
                 \<not> (x ! (i - 1) < x ! i \<and> x ! (plateau_end x i (i + 1)) < x ! i) \<Longrightarrow>
                 P (i + 1) \<Longrightarrow> P i"
    and peak: "\<And>i. i + 1 < length x \<Longrightarrow> x ! (i - 1) < x ! i \<Longrightarrow>
                 x ! (plateau_end x i (i + 1)) < x ! i \<Longrightarrow>
                 P (plateau_end x i (i + 1) + 1) \<Longrightarrow> P i"
  shows "P i"
proof (induction "length x - i" arbitrary: i rule: less_induct)
  case less
  show ?case
  proof (cases "i + 1 < length x")
    case False
    then show ?thesis by (rule nil)
  next
    case len: True
    show ?thesis
    proof (cases "x ! (i - 1) < x ! i \<and> x ! (plateau_end x i (i + 1)) < x ! i")
      case False
      from len have "length x - (i + 1) < length x - i" by simp
      then have "P (i + 1)" by (rule less)
      with len False show ?thesis by (rule skip)
    next
      case True
      have "i + 1 \<le> plateau_end x i (i + 1)" by (rule plateau_end_ge)
      with len have "length x - (plateau_end x i (i + 1) + 1) < length x - i" by simp
      then have "P (plateau_end x i (i + 1) + 1)" by (rule less)
      with len True show ?thesis using peak [of i] by blast
    qed
  qed
qed

lemma flat_peak_run:
  assumes "0 < i" "i + 1 < length x" "x ! (i - 1) < x ! i" "x ! (plateau_end x i (i + 1)) < x ! i"
  shows "flat_peak x i (plateau_end x i (i + 1) - 1)"
proof -
  define e where "e = plateau_end x i (i + 1)"
  have ge: "i + 1 \<le> e" unfolding e_def by (rule plateau_end_ge)
  from assms(2) have lt: "e < length x" unfolding e_def by (rule plateau_end_less)
  have "\<forall>k \<in> {i..e - 1}. x ! k = x ! i"
  proof
    fix k assume "k \<in> {i..e - 1}"
    with ge have "i \<le> k" and "k < e" by auto
    then show "x ! k = x ! i" unfolding e_def by (rule plateau_flat_from)
  qed
  moreover from ge have a: "i \<le> e - 1" and b: "e - 1 + 1 = e" by simp_all
  moreover from assms(4) have "x ! e < x ! i" unfolding e_def .
  ultimately have "flat_peak x i (e - 1)"
    unfolding flat_peak_def b using assms(1,3) lt by blast
  then show ?thesis unfolding e_def .
qed

lemma lm_sound:
  "0 < i \<Longrightarrow> p \<in> set (local_maxima_1d x i) \<Longrightarrow>
   \<exists>l r. i \<le> l \<and> flat_peak x l r \<and> p = (l + r) div 2"
proof (induction i rule: lm_induct [of x])
  case (nil i)
  then show ?case by (simp add: lm_nil)
next
  case (skip i)
  from skip.prems skip.hyps have "p \<in> set (local_maxima_1d x (i + 1))"
    by (simp add: lm_skip)
  with skip.IH obtain l r where "i + 1 \<le> l" "flat_peak x l r" "p = (l + r) div 2"
    by auto
  then show ?case by (intro exI [of _ l] exI [of _ r]) simp
next
  case (peak i)
  define e where "e = plateau_end x i (i + 1)"
  have ge: "i + 1 \<le> e" unfolding e_def by (rule plateau_end_ge)
  from peak.hyps have eq: "local_maxima_1d x i = ((i + (e - 1)) div 2) # local_maxima_1d x (e + 1)"
    unfolding e_def by (rule lm_peak)
  from peak.prems(2) eq consider "p = (i + (e - 1)) div 2" | "p \<in> set (local_maxima_1d x (e + 1))"
    by auto
  then show ?case
  proof cases
    case 1
    from peak.prems(1) peak.hyps have "flat_peak x i (e - 1)"
      unfolding e_def by (rule flat_peak_run)
    with 1 show ?thesis by (intro exI [of _ i] exI [of _ "e - 1"]) simp
  next
    case 2
    with peak.IH obtain l r where "e + 1 \<le> l" "flat_peak x l r" "p = (l + r) div 2"
      unfolding e_def by auto
    with ge show ?thesis by (intro exI [of _ l] exI [of _ r]) simp
  qed
qed

lemma lm_complete:
  "0 < i \<Longrightarrow> i \<le> l \<Longrightarrow> flat_peak x l r \<Longrightarrow> (l + r) div 2 \<in> set (local_maxima_1d x i)"
proof (induction i rule: lm_induct [of x])
  case (nil i)
  from nil.prems(3) have "l \<le> r" and "r + 1 < length x" by (rule flat_peakD)+
  with nil.prems(2) nil.hyps show ?case by simp
next
  case (skip i)
  have "l \<noteq> i"
  proof
    assume "l = i"
    with skip.prems have "flat_peak x i r" by simp
    then have "x ! (plateau_end x i (i + 1)) < x ! i" and "x ! (i - 1) < x ! i"
      using flat_peak_at_start [of x i r] flat_peakD(4) [of x i r] by blast+
    with skip.hyps(2) show False by blast
  qed
  with skip.prems have "i + 1 \<le> l" by simp
  with skip.IH skip.prems have "(l + r) div 2 \<in> set (local_maxima_1d x (i + 1))" by simp
  with skip.hyps show ?case by (simp add: lm_skip)
next
  case (peak i)
  define e where "e = plateau_end x i (i + 1)"
  from peak.hyps have eq: "local_maxima_1d x i = ((i + (e - 1)) div 2) # local_maxima_1d x (e + 1)"
    unfolding e_def by (rule lm_peak)
  show ?case
  proof (cases "l = i")
    case True
    with peak.prems have "flat_peak x i r" by simp
    then have "r + 1 = e" unfolding e_def using flat_peak_at_start [of x i r] by blast
    then have "r = e - 1" by simp
    with True eq show ?thesis by simp
  next
    case False
    with peak.prems have "i < l" by simp
    have "\<not> l \<le> e"
    proof
      assume "l \<le> e"
      with flat_peak_inside [OF peak.prems(3) \<open>i < l\<close> _ peak.hyps(3)] show False
        unfolding e_def by blast
    qed
    then have "e + 1 \<le> l" by simp
    with peak.IH peak.prems have "(l + r) div 2 \<in> set (local_maxima_1d x (e + 1))"
      unfolding e_def by simp
    with eq show ?thesis by simp
  qed
qed

lemma lm_bounds: "p \<in> set (local_maxima_1d x i) \<Longrightarrow> i \<le> p \<and> p + 1 < length x"
proof (induction i rule: lm_induct [of x])
  case (nil i)
  then show ?case by (simp add: lm_nil)
next
  case (skip i)
  then show ?case by (simp add: lm_skip)
next
  case (peak i)
  define e where "e = plateau_end x i (i + 1)"
  have ge: "i + 1 \<le> e" unfolding e_def by (rule plateau_end_ge)
  from peak.hyps(1) have lt: "e < length x" unfolding e_def by (rule plateau_end_less)
  from peak.hyps have eq: "local_maxima_1d x i = ((i + (e - 1)) div 2) # local_maxima_1d x (e + 1)"
    unfolding e_def by (rule lm_peak)
  from peak.prems eq consider "p = (i + (e - 1)) div 2" | "p \<in> set (local_maxima_1d x (e + 1))"
    by auto
  then show ?case
  proof cases
    case 1
    with ge lt show ?thesis by auto
  next
    case 2
    with peak.IH have "e + 1 \<le> p \<and> p + 1 < length x" unfolding e_def by simp
    with ge show ?thesis by simp
  qed
qed

lemma lm_distinct: "distinct (local_maxima_1d x i)"
proof (induction i rule: lm_induct [of x])
  case (nil i)
  then show ?case by (simp add: lm_nil)
next
  case (skip i)
  then show ?case by (simp add: lm_skip)
next
  case (peak i)
  define e where "e = plateau_end x i (i + 1)"
  have ge: "i + 1 \<le> e" unfolding e_def by (rule plateau_end_ge)
  from peak.hyps have eq: "local_maxima_1d x i = ((i + (e - 1)) div 2) # local_maxima_1d x (e + 1)"
    unfolding e_def by (rule lm_peak)
  have "(i + (e - 1)) div 2 \<notin> set (local_maxima_1d x (e + 1))"
  proof
    assume "(i + (e - 1)) div 2 \<in> set (local_maxima_1d x (e + 1))"
    then have "e + 1 \<le> (i + (e - 1)) div 2" using lm_bounds by blast
    with ge show False by simp
  qed
  with peak.IH eq show ?case unfolding e_def by simp
qed

lemma find_peaks_set: "set (find_peaks x) = {(l + r) div 2 | l r. flat_peak x l r}"
proof (intro set_eqI iffI)
  fix p assume "p \<in> set (find_peaks x)"
  then have "p \<in> set (local_maxima_1d x 1)" by (simp add: find_peaks_def)
  with lm_sound [of 1 p x] show "p \<in> {(l + r) div 2 | l r. flat_peak x l r}" by auto
next
  fix p assume "p \<in> {(l + r) div 2 | l r. flat_peak x l r}"
  then obtain l r where lr: "flat_peak x l r" and p: "p = (l + r) div 2" by blast
  from lr have "0 < l" by (rule flat_peakD)
  then have "1 \<le> l" by simp
  with lr have "(l + r) div 2 \<in> set (local_maxima_1d x 1)"
    by (intro lm_complete) simp_all
  with p show "p \<in> set (find_peaks x)" by (simp add: find_peaks_def)
qed

lemma strict_flat: "strict_peak x i = flat_peak x i i"
  unfolding strict_peak_def flat_peak_def by auto

lemma strict_peak_found: "strict_peak x i \<Longrightarrow> i \<in> set (find_peaks x)"
proof -
  assume "strict_peak x i"
  then have "flat_peak x i i" by (simp only: strict_flat)
  then have "(i + i) div 2 \<in> set (find_peaks x)" unfolding find_peaks_set by blast
  then show ?thesis by simp
qed

lemma flat_peak_single:
  assumes "flat_peak x l r" and "\<forall>i. i + 1 < length x \<longrightarrow> x ! i \<noteq> x ! (i + 1)"
  shows "l = r"
proof (rule ccontr)
  assume "l \<noteq> r"
  moreover from assms(1) have lr: "l \<le> r" "r + 1 < length x" by (rule flat_peakD)+
  ultimately have "l + 1 \<in> {l..r}" and "l + 1 < length x" by simp_all
  moreover from assms(1) have "\<forall>k \<in> {l..r}. x ! k = x ! l" unfolding flat_peak_def by blast
  ultimately have "x ! (l + 1) = x ! l" by blast
  with assms(2) \<open>l + 1 < length x\<close> show False by metis
qed

lemma find_peaks_strict:
  assumes "\<forall>i. i + 1 < length x \<longrightarrow> x ! i \<noteq> x ! (i + 1)"
  shows "set (find_peaks x) = {i. strict_peak x i}"
proof (intro set_eqI iffI)
  fix p assume "p \<in> set (find_peaks x)"
  then obtain l r where lr: "flat_peak x l r" and p: "p = (l + r) div 2"
    unfolding find_peaks_set by blast
  from lr assms have "l = r" by (rule flat_peak_single)
  with p have "p = l" by simp
  with lr \<open>l = r\<close> show "p \<in> {i. strict_peak x i}" by (simp add: strict_flat)
next
  fix p assume "p \<in> {i. strict_peak x i}"
  then show "p \<in> set (find_peaks x)" by (simp add: strict_peak_found)
qed

lemma find_peaks_inner: "p \<in> set (find_peaks x) \<Longrightarrow> 0 < p \<and> p + 1 < length x"
  unfolding find_peaks_def using lm_bounds [of p x 1] by simp

lemma no_flat_peak_sorted: "sorted x \<Longrightarrow> \<not> flat_peak x l r"
proof
  assume "sorted x" and fp: "flat_peak x l r"
  from fp have "l \<le> r" "r + 1 < length x" "x ! (r + 1) < x ! l" by (rule flat_peakD)+
  with \<open>sorted x\<close> have "x ! l \<le> x ! (r + 1)" by (intro sorted_nth_mono) simp_all
  with \<open>x ! (r + 1) < x ! l\<close> show False by simp
qed

lemma no_flat_peak_sorted_rev: "sorted (rev x) \<Longrightarrow> \<not> flat_peak x l r"
proof
  assume s: "sorted (rev x)" and fp: "flat_peak x l r"
  from fp have l: "0 < l" "l \<le> r" "r + 1 < length x" "x ! (l - 1) < x ! l" by (rule flat_peakD)+
  from s have "sorted_wrt (\<lambda>a b. b \<le> a) x"
    by (simp add: sorted_wrt_rev)
  moreover from l have "l - 1 < l" "l < length x" by simp_all
  ultimately have "x ! l \<le> x ! (l - 1)" by (rule sorted_wrt_nth_less)
  with l(4) show False by simp
qed

lemma no_flat_peak_short: "length x < 3 \<Longrightarrow> \<not> flat_peak x l r"
proof
  assume "length x < 3" and fp: "flat_peak x l r"
  from fp have "0 < l" "l \<le> r" "r + 1 < length x" by (rule flat_peakD)+
  with \<open>length x < 3\<close> show False by simp
qed

lemma find_peaks_none:
  "length x < 3 \<or> sorted x \<or> sorted (rev x) \<Longrightarrow> find_peaks x = []"
proof -
  assume "length x < 3 \<or> sorted x \<or> sorted (rev x)"
  then have "\<And>l r. \<not> flat_peak x l r"
    using no_flat_peak_short no_flat_peak_sorted no_flat_peak_sorted_rev by blast
  then have "set (find_peaks x) = {}" unfolding find_peaks_set by blast
  then show ?thesis by simp
qed

lemma find_peaks_distinct: "distinct (find_peaks x)"
  unfolding find_peaks_def by (rule lm_distinct)

lemma mean_peak_value_mean:
  "find_peaks x \<noteq> [] \<Longrightarrow>
   mean_peak_value x = of_nat (\<Sum>i \<in> set (find_peaks x). x ! i) / of_nat (card (set (find_peaks x)))"
  using find_peaks_distinct [of x]
  by (simp add: mean_peak_value_def Let_def sum_list_distinct_conv_sum_set distinct_card)

lemma mean_peak_value_none: "find_peaks x = [] \<Longrightarrow> mean_peak_value x = 0"
  by (simp add: mean_peak_value_def)

text \<open>
  C2 (amended). For every finalized count sequence the PeakSet is exactly the set of
  floor-midpoints of the flat peaks (the runs of equal counts, away from both ends, whose
  neighbours on both sides are strictly smaller); every strict local maximum is in it, and
  when no two adjacent counts are equal it is exactly the set of strict local maxima. The
  first and the last index never qualify. The metric is 0 whenever the sequence has
  fewer than 3 samples or is non-decreasing or non-increasing (then the PeakSet is
  empty), and whenever the PeakSet is empty; otherwise it is the arithmetic mean of the
  values at the PeakSet indices.
\<close>

theorem peak_set_and_metric:
  fixes x :: "nat list"
  shows "set (find_peaks x) = {(l + r) div 2 | l r. flat_peak x l r}
    \<and> {i. strict_peak x i} \<subseteq> set (find_peaks x)
    \<and> ((\<forall>i. i + 1 < length x \<longrightarrow> x ! i \<noteq> x ! (i + 1)) \<longrightarrow> set (find_peaks x) = {i. strict_peak x i})
    \<and> (\<forall>p \<in> set (find_peaks x). 0 < p \<and> p + 1 < length x)
    \<and> (length x < 3 \<or> sorted x \<or> sorted (rev x) \<longrightarrow> find_peaks x = [] \<and> mean_peak_value x = 0)
    \<and> (find_peaks x = [] \<longrightarrow> mean_peak_value x = 0)
    \<and> (find_peaks x \<noteq> [] \<longrightarrow>
         mean_peak_value x = of_nat (\<Sum>i \<in> set (find_peaks x). x ! i) / of_nat (card (set (find_peaks x))))"
proof (intro conjI)
  show "set (find_peaks x) = {(l + r) div 2 | l r. flat_peak x l r}" by (rule find_peaks_set)
  show "{i. strict_peak x i} \<subseteq> set (find_peaks x)" using strict_peak_found by blast
  show "(\<forall>i. i + 1 < length x \<longrightarrow> x ! i \<noteq> x ! (i + 1)) \<longrightarrow> set (find_peaks x) = {i. strict_peak x i}"
    using find_peaks_strict by blast
  show "\<forall>p \<in> set (find_peaks x). 0 < p \<and> p + 1 < length x" using find_peaks_inner by blast
  show "length x < 3 \<or> sorted x \<or> sorted (rev x) \<longrightarrow> find_peaks x = [] \<and> mean_peak_value x = 0"
    using find_peaks_none mean_peak_value_none by blast
  show "find_peaks x = [] \<longrightarrow> mean_peak_value x = 0" using mean_peak_value_none by blast
  show "find_peaks x \<noteq> [] \<longrightarrow>
         mean_peak_value x = of_nat (\<Sum>i \<in> set (find_peaks x). x ! i) / of_nat (card (set (find_peaks x)))"
    using mean_peak_value_mean by blast
qed

theorem peak_set_and_metric_witness:
  "sorted [1, 2, 3, 4, 5 :: nat] \<and> mean_peak_value [1, 2, 3, 4, 5] = 0
   \<and> find_peaks [2, 4, 4, 1, 6, 3 :: nat] \<noteq> [] \<and> mean_peak_value [2, 4, 4, 1, 6, 3] = 5"
proof -
  have s: "sorted [1, 2, 3, 4, 5 :: nat]" by simp
  with peak_set_and_metric [of "[1, 2, 3, 4, 5]"]
  have m0: "mean_peak_value [1, 2, 3, 4, 5] = 0" by blast
  have fp: "find_peaks [2, 4, 4, 1, 6, 3 :: nat] = [1, 4]" by code_simp
  have ne: "find_peaks [2, 4, 4, 1, 6, 3 :: nat] \<noteq> []" unfolding fp by simp
  with peak_set_and_metric [of "[2, 4, 4, 1, 6, 3]"]
  have "mean_peak_value [2, 4, 4, 1, 6, 3]
      = of_nat (\<Sum>i \<in> set (find_peaks [2, 4, 4, 1, 6, 3 :: nat]). [2, 4, 4, 1, 6, 3] ! i)
        / of_nat (card (set (find_peaks [2, 4, 4, 1, 6, 3 :: nat])))"
    by blast
  also have "\<dots> = 5" unfolding fp by simp
  finally show ?thesis using s m0 ne by blast
qed

text \<open>
  C2 as stated fails on a plateau: in \<open>[1, 3, 3, 1]\<close> no index is strictly greater than
  both neighbours, yet index 1 is reported as a peak and the metric is 3, not 0.
\<close>

theorem plateau_counterexample:
  "find_peaks [1, 3, 3, 1 :: nat] = [1]
   \<and> \<not> strict_peak [1, 3, 3, 1 :: nat] 1
   \<and> \<not> strict_peak [1, 3, 3, 1 :: nat] 2
   \<and> mean_peak_value [1, 3, 3, 1] = 3"
  by (simp add: strict_peak_def mean_peak_value_def find_peaks_def local_maxima_1d.simps
      plateau_end.simps)

lemma find_peaks_example: "find_peaks [1, 3, 2, 5, 2 :: nat] = [1, 3]"
  by (simp add: find_peaks_def local_maxima_1d.simps plateau_end.simps)

text \<open>
  C3. On the sequence \<open>[1, 3, 2, 5, 2]\<close> the PeakSet is \<open>{1, 3}\<close> and the metric is 4, the
  mean of the values 3 and 5 at those indices.
\<close>

theorem peaks_of_example:
  "find_peaks [1, 3, 2, 5, 2 :: nat] = [1, 3]
   \<and> set (find_peaks [1, 3, 2, 5, 2 :: nat]) = {1, 3}
   \<and> mean_peak_value [1, 3, 2, 5, 2] = 4"
  unfolding mean_peak_value_def find_peaks_example by simp

section \<open>The pipeline and the report\<close>

lemma frame_loop_raises: "Raises \<in> set fs \<Longrightarrow> \<exists>e. frame_loop class_name fs w = Inl e"
proof (induction fs arbitrary: w)
  case Nil
  then show ?case by simp
next
  case (Cons f fs)
  show ?case
  proof (cases f)
    case Raises
    then show ?thesis by simp
  next
    case (Detected classes t)
    with Cons.prems have "Raises \<in> set fs" by simp
    then have "\<And>w. \<exists>e. frame_loop class_name fs w = Inl e" by (rule Cons.IH)
    with Detected show ?thesis by (auto split: sum.splits)
  qed
qed

lemma detect_cars_try_unusable:
  assumes "unusable h p"
  shows "\<exists>e. fst (detect_cars_try h p) = Inl e"
proof (cases "classes_txt h")
  case None
  then show ?thesis by (simp add: detect_cars_try_def)
next
  case (Some cn)
  show ?thesis
  proof (cases "isOpened (video h p)")
    case False
    with Some show ?thesis by (simp add: detect_cars_try_def)
  next
    case True
    with assms have "Raises \<in> set (frames (video h p))" by (simp add: unusable_def)
    then obtain e where "frame_loop cn (frames (video h p)) [] = Inl e"
      using frame_loop_raises by blast
    with Some True show ?thesis by (simp add: detect_cars_try_def)
  qed
qed

lemma detect_cars_fst:
  "fst (detect_cars h p) = (case fst (detect_cars_try h p) of Inl e \<Rightarrow> - 1 | Inr v \<Rightarrow> v)"
  by (simp add: detect_cars_def split: prod.splits sum.splits)

lemma detect_cars_snd: "snd (detect_cars h p) = snd (detect_cars_try h p)"
  by (simp add: detect_cars_def split: prod.splits sum.splits)

lemma detect_cars_sentinel_aux: "unusable h p \<Longrightarrow> fst (detect_cars h p) = - 1"
proof -
  assume "unusable h p"
  then obtain e where "fst (detect_cars_try h p) = Inl e"
    using detect_cars_try_unusable by blast
  then show ?thesis by (simp add: detect_cars_fst)
qed

lemma car_count_ok:
  "\<forall>c \<in> set classes. c < length class_name \<Longrightarrow> \<exists>n. car_count class_name classes = Inr n"
  by (induction classes) auto

lemma frame_loop_ok:
  "list_all (frame_ok class_name) fs \<Longrightarrow> \<exists>w'. frame_loop class_name fs w = Inr w'"
proof (induction fs arbitrary: w)
  case Nil
  then show ?case by simp
next
  case (Cons f fs)
  show ?case
  proof (cases f)
    case Raises
    with Cons.prems show ?thesis by simp
  next
    case (Detected classes t)
    with Cons.prems obtain n where "car_count class_name classes = Inr n"
      using car_count_ok [of classes class_name] by auto
    moreover from Cons.prems have "\<And>w. \<exists>w'. frame_loop class_name fs w = Inr w'"
      by (intro Cons.IH) simp
    ultimately show ?thesis using Detected by simp
  qed
qed

lemma mean_peak_value_nonneg: "0 \<le> mean_peak_value x"
  by (simp add: mean_peak_value_def Let_def)

lemma detect_cars_processable:
  assumes "processable h p"
  shows "\<exists>w. detect_cars h p = (mean_peak_value (snapshot w), [VideoCapture p, Release p])"
proof -
  from assms obtain cn where cn: "classes_txt h = Some cn" "''car'' \<in> set cn" "net_loads h"
    "isOpened (video h p)" "list_all (frame_ok cn) (frames (video h p))"
    unfolding processable_def by (cases "classes_txt h") simp_all
  from cn(5) obtain w where "frame_loop cn (frames (video h p)) [] = Inr w"
    using frame_loop_ok by blast
  with cn have "detect_cars h p = (mean_peak_value (snapshot w), [VideoCapture p, Release p])"
    by (simp add: detect_cars_def detect_cars_try_def)
  then show ?thesis by (rule exI)
qed

lemma detect_cars_nonneg:
  assumes "processable h p"
  shows "0 \<le> fst (detect_cars h p)"
proof -
  from assms obtain w where "detect_cars h p = (mean_peak_value (snapshot w), [VideoCapture p, Release p])"
    using detect_cars_processable by blast
  then show ?thesis by (simp add: mean_peak_value_nonneg)
qed








text \<open>
  C8, on the code: a video that opens and then fails in its second frame (the read or the
  detection raises, or a class id is outside the vocabulary) is never released before
  \<^verbatim>\<open>detect_cars\<close> returns -1, while the same video without the failing frame is released.
\<close>

theorem release_skipped_on_failure:
  "detect_cars (host_with [''person'', ''car''] [(''north.mp4'', [Detected [1] 5, Raises])]) ''north.mp4''
     = (- 1, [VideoCapture ''north.mp4''])
   \<and> detect_cars (host_with [''person'', ''car''] [(''north.mp4'', [Detected [1] 5, Detected [2] 6])])
       ''north.mp4''
     = (- 1, [VideoCapture ''north.mp4''])
   \<and> detect_cars (host_with [''person'', ''car''] [(''north.mp4'', [Detected [1] 5])]) ''north.mp4''
     = (0, [VideoCapture ''north.mp4'', Release ''north.mp4''])"
  by (simp add: detect_cars_def detect_cars_try_def host_with_def observe_def snapshot_def
      mean_peak_value_def find_peaks_def local_maxima_1d.simps)

lemma detect_cars_no_car:
  "classes_txt h = Some class_name \<Longrightarrow> ''car'' \<notin> set class_name \<Longrightarrow> detect_cars h p = (- 1, [])"
  by (simp add: detect_cars_def detect_cars_try_def)

lemma first_pending_Some:
  "first_pending activity_id acts = Some k \<Longrightarrow>
   k < length acts \<and> id_a (acts ! k) = activity_id \<and> status (acts ! k) = ''pending''"
proof (induction acts arbitrary: k)
  case Nil
  then show ?case by simp
next
  case (Cons a acts)
  show ?case
  proof (cases "id_a a = activity_id \<and> status a = ''pending''")
    case True
    with Cons.prems show ?thesis by auto
  next
    case False
    with Cons.prems obtain k' where k': "first_pending activity_id acts = Some k'" "k = Suc k'"
      by auto
    from Cons.IH [OF k'(1)] k'(2) show ?thesis by simp
  qed
qed

lemma first_pending_None:
  "first_pending activity_id acts = None \<longleftrightarrow>
   (\<forall>a \<in> set acts. \<not> (id_a a = activity_id \<and> status a = ''pending''))"
  by (induction acts) auto

lemma length_video_paths: "length (video_paths activity_id) = 4"
  by (simp add: video_paths_def directions_def)

lemma num_cars_list_nth:
  "i < 4 \<Longrightarrow> map (\<lambda>v. fst (detect_cars h v)) (video_paths activity_id) ! i
     = fst (detect_cars h (video_paths activity_id ! i))"
  by (simp add: length_video_paths)

lemma approve_pending:
  assumes "first_pending activity_id (activities st) = Some k"
    and "optimize_traffic (map (\<lambda>v. fst (detect_cars h v)) (video_paths activity_id)) = Some res"
  shows "approve_activity h optimize_traffic activity_id uuid_l now_l st =
     ((Success, 200),
      st\<lparr>activities := (activities st)
           [k := (activities st ! k)\<lparr>status := ''approved'', result := Some res,
                   trafficCounts := Some
                     [(''north'', fst (detect_cars h (video_paths activity_id ! 0))),
                      (''south'', fst (detect_cars h (video_paths activity_id ! 1))),
                      (''east'', fst (detect_cars h (video_paths activity_id ! 2))),
                      (''west'', fst (detect_cars h (video_paths activity_id ! 3)))]\<rparr>],
         recent_activities := recent_activities st @
           [\<lparr>id_l = uuid_l,
             action = ''Admin approved activity '' @ [CHR 39] @ activity_id @ [CHR 39]
                      @ '' for user '' @ [CHR 39] @ userId (activities st ! k) @ [CHR 39],
             timestamp_l = now_l\<rparr>]\<rparr>)"
  using assms by (simp add: approve_activity_def Let_def num_cars_list_nth)


lemma car_count_zero:
  "\<forall>c \<in> set classes. c < length class_name \<and> class_name ! c \<noteq> ''car'' \<Longrightarrow>
   car_count class_name classes = Inr 0"
  by (induction classes) auto

lemma evict_subset: "set (evict t xs) \<subseteq> set xs"
  by (induction xs) auto

lemma observe_zero:
  assumes "\<forall>s \<in> set w. snd s = 0"
  shows "\<forall>s \<in> set (observe w (t, 0)). snd s = 0"
proof
  fix s assume "s \<in> set (observe w (t, 0))"
  then have "s \<in> set (w @ [(t, 0)])"
    unfolding observe_def using evict_subset by blast
  with assms show "snd s = 0" by auto
qed

lemma frame_loop_zero:
  "list_all (frame_no_car class_name) fs \<Longrightarrow> \<forall>s \<in> set w. snd s = 0 \<Longrightarrow>
   \<exists>w'. frame_loop class_name fs w = Inr w' \<and> (\<forall>s \<in> set w'. snd s = 0)"
proof (induction fs arbitrary: w)
  case Nil
  then show ?case by simp
next
  case (Cons f fs)
  show ?case
  proof (cases f)
    case Raises
    with Cons.prems show ?thesis by simp
  next
    case (Detected classes t)
    with Cons.prems have "car_count class_name classes = Inr 0"
      by (intro car_count_zero) simp
    then have step: "frame_loop class_name (f # fs) w = frame_loop class_name fs (observe w (t, 0))"
      using Detected by simp
    from Cons.prems(2) have "\<forall>s \<in> set (observe w (t, 0)). snd s = 0"
      by (rule observe_zero)
    moreover from Cons.prems(1) have "list_all (frame_no_car class_name) fs" by simp
    ultimately have "\<exists>w'. frame_loop class_name fs (observe w (t, 0)) = Inr w' \<and> (\<forall>s \<in> set w'. snd s = 0)"
      by (intro Cons.IH)
    with step show ?thesis by simp
  qed
qed

lemma zeros_sorted: "\<forall>v \<in> set x. v = (0 :: nat) \<Longrightarrow> sorted x"
  by (induction x) auto

lemma zeros_mean: "\<forall>v \<in> set x. v = (0 :: nat) \<Longrightarrow> mean_peak_value x = 0"
  using zeros_sorted [of x] find_peaks_none [of x] mean_peak_value_none [of x] by blast

lemma detect_cars_carless:
  assumes "carless h p"
  shows "fst (detect_cars h p) = 0"
proof -
  from assms obtain cn where cn: "classes_txt h = Some cn" "''car'' \<in> set cn" "net_loads h"
    "isOpened (video h p)" "list_all (frame_no_car cn) (frames (video h p))"
    unfolding carless_def by (cases "classes_txt h") simp_all
  have "\<forall>s \<in> set ([] :: sample list). snd s = 0" by simp
  with cn(5) obtain w where w: "frame_loop cn (frames (video h p)) [] = Inr w"
    "\<forall>s \<in> set w. snd s = 0"
    using frame_loop_zero by blast
  from w(2) have "\<forall>v \<in> set (snapshot w). v = 0" by (simp add: snapshot_def)
  then have "mean_peak_value (snapshot w) = 0" by (rule zeros_mean)
  with cn w(1) show ?thesis
    by (simp add: detect_cars_def detect_cars_try_def)
qed

lemma carless_counts:
  assumes "carless h p" and "classes_txt h = Some class_name"
    and "Detected classes t \<in> set (frames (video h p))"
  shows "car_count class_name classes = Inr 0"
proof -
  from assms(1,2) have "list_all (frame_no_car class_name) (frames (video h p))"
    by (simp add: carless_def)
  then have "\<forall>f \<in> set (frames (video h p)). frame_no_car class_name f"
    by (simp only: list_all_iff)
  with assms(3) have "frame_no_car class_name (Detected classes t)"
    by blast
  then have "\<forall>c \<in> set classes. c < length class_name \<and> class_name ! c \<noteq> ''car''"
    by simp
  then show ?thesis by (rule car_count_zero)
qed

lemma video_paths_nth_mem: "i < 4 \<Longrightarrow> video_paths activity_id ! i \<in> set (video_paths activity_id)"
  by (simp add: length_video_paths)

text \<open>
  C5. Approving a pending activity with three processable videos and one unusable video
  (the optimizer returning a plan) stores a report that maps north, south, east and west
  to the four values \<^verbatim>\<open>detect_cars\<close> returned, in that order and unchanged; exactly the
  direction of the unusable video is -1 and the other three are non-negative.
\<close>

theorem flow_report_isolates_failure:
  assumes "first_pending activity_id (activities st) = Some k"
    and "j < 4"
    and "unusable h (video_paths activity_id ! j)"
    and "\<forall>i<4. i \<noteq> j \<longrightarrow> processable h (video_paths activity_id ! i)"
    and "optimize_traffic (map (\<lambda>v. fst (detect_cars h v)) (video_paths activity_id)) = Some res"
  shows "fst (approve_activity h optimize_traffic activity_id uuid_l now_l st) = (Success, 200)
    \<and> trafficCounts (activities (snd (approve_activity h optimize_traffic activity_id uuid_l now_l st)) ! k)
        = Some [(''north'', fst (detect_cars h (video_paths activity_id ! 0))),
                (''south'', fst (detect_cars h (video_paths activity_id ! 1))),
                (''east'', fst (detect_cars h (video_paths activity_id ! 2))),
                (''west'', fst (detect_cars h (video_paths activity_id ! 3)))]
    \<and> (\<forall>i<4. (fst (detect_cars h (video_paths activity_id ! i)) = - 1) = (i = j))
    \<and> (\<forall>i<4. i \<noteq> j \<longrightarrow> 0 \<le> fst (detect_cars h (video_paths activity_id ! i)))"
proof -
  from assms(1) have k: "k < length (activities st)" using first_pending_Some by blast
  have good: "0 \<le> fst (detect_cars h (video_paths activity_id ! i))" if "i < 4" "i \<noteq> j" for i
    using that assms(4) detect_cars_nonneg by blast
  have bad: "fst (detect_cars h (video_paths activity_id ! j)) = - 1"
    using assms(3) detect_cars_sentinel_aux by blast
  have "(fst (detect_cars h (video_paths activity_id ! i)) = - 1) = (i = j)" if "i < 4" for i
  proof (cases "i = j")
    case True
    with bad show ?thesis by simp
  next
    case False
    with that have "0 \<le> fst (detect_cars h (video_paths activity_id ! i))" by (rule good)
    with False show ?thesis by simp
  qed
  moreover note good
  moreover from k have "fst (approve_activity h optimize_traffic activity_id uuid_l now_l st) = (Success, 200)"
    and "trafficCounts (activities (snd (approve_activity h optimize_traffic activity_id uuid_l now_l st)) ! k)
        = Some [(''north'', fst (detect_cars h (video_paths activity_id ! 0))),
                (''south'', fst (detect_cars h (video_paths activity_id ! 1))),
                (''east'', fst (detect_cars h (video_paths activity_id ! 2))),
                (''west'', fst (detect_cars h (video_paths activity_id ! 3)))]"
    unfolding approve_pending [where h = h and optimize_traffic = optimize_traffic
        and activity_id = activity_id and st = st, OF assms(1) assms(5)]
    by simp_all
  ultimately show ?thesis by blast
qed


lemma example_paths:
  "video_paths ''a1'' =
     [''uploads/a1/north.mp4'', ''uploads/a1/south.mp4'', ''uploads/a1/east.mp4'',
      ''uploads/a1/west.mp4'']"
  by (simp add: video_paths_def directions_def path_join_def UPLOAD_FOLDER_def)

lemma example_pending: "first_pending ''a1'' (activities example_store) = Some 0"
  by (simp add: example_store_def)

lemma below_4: "i < 4 \<Longrightarrow> i = 0 \<or> i = 1 \<or> i = 2 \<or> i = (3 :: nat)"
  by arith

theorem flow_report_isolates_failure_witness:
  "first_pending ''a1'' (activities example_store) = Some 0
   \<and> unusable example_host (video_paths ''a1'' ! 3)
   \<and> processable example_host (video_paths ''a1'' ! 0)
   \<and> processable example_host (video_paths ''a1'' ! 1)
   \<and> processable example_host (video_paths ''a1'' ! 2)
   \<and> trafficCounts (activities (snd (approve_activity example_host Some ''a1'' ''l1'' ''t1'' example_store)) ! 0)
       = Some [(''north'', 2), (''south'', 0), (''east'', 0), (''west'', - 1)]"
proof -
  have bad: "unusable example_host (video_paths ''a1'' ! 3)"
    by (simp add: example_paths unusable_def example_host_def host_with_def)
  have g0: "processable example_host (video_paths ''a1'' ! 0)"
    by (simp add: example_paths processable_def example_host_def host_with_def)
  have g1: "processable example_host (video_paths ''a1'' ! 1)"
    by (simp add: example_paths processable_def example_host_def host_with_def)
  have g2: "processable example_host (video_paths ''a1'' ! 2)"
    by (simp add: example_paths processable_def example_host_def host_with_def)
  have good: "\<forall>i<4. i \<noteq> 3 \<longrightarrow> processable example_host (video_paths ''a1'' ! i)"
    using g0 g1 g2 below_4 by blast
  have opt: "Some (map (\<lambda>v. fst (detect_cars example_host v)) (video_paths ''a1''))
     = Some (map (\<lambda>v. fst (detect_cars example_host v)) (video_paths ''a1''))"
    by (rule refl)
  have v0: "fst (detect_cars example_host (video_paths ''a1'' ! 0)) = 2"
    by (simp add: example_paths detect_cars_def detect_cars_try_def example_host_def host_with_def
        observe_def snapshot_def mean_peak_value_def find_peaks_def local_maxima_1d.simps
        plateau_end.simps)
  have v1: "fst (detect_cars example_host (video_paths ''a1'' ! 1)) = 0"
    by (simp add: example_paths detect_cars_def detect_cars_try_def example_host_def host_with_def
        observe_def snapshot_def mean_peak_value_def find_peaks_def local_maxima_1d.simps)
  have v2: "fst (detect_cars example_host (video_paths ''a1'' ! 2)) = 0"
    by (simp add: example_paths detect_cars_def detect_cars_try_def example_host_def host_with_def
        observe_def snapshot_def mean_peak_value_def find_peaks_def local_maxima_1d.simps)
  have v3: "fst (detect_cars example_host (video_paths ''a1'' ! 3)) = - 1"
    by (simp add: example_paths detect_cars_def detect_cars_try_def example_host_def host_with_def)
  have "(3 :: nat) < 4" by simp
  from flow_report_isolates_failure
    [where h = example_host and optimize_traffic = Some and activity_id = "''a1''"
       and st = example_store and uuid_l = "''l1''" and now_l = "''t1''",
     OF example_pending this bad good opt]
  have "trafficCounts (activities (snd (approve_activity example_host Some ''a1'' ''l1'' ''t1'' example_store)) ! 0)
        = Some [(''north'', fst (detect_cars example_host (video_paths ''a1'' ! 0))),
                (''south'', fst (detect_cars example_host (video_paths ''a1'' ! 1))),
                (''east'', fst (detect_cars example_host (video_paths ''a1'' ! 2))),
                (''west'', fst (detect_cars example_host (video_paths ''a1'' ! 3)))]"
    by blast
  then have "trafficCounts (activities (snd (approve_activity example_host Some ''a1'' ''l1'' ''t1'' example_store)) ! 0)
        = Some [(''north'', 2), (''south'', 0), (''east'', 0), (''west'', - 1)]"
    unfolding v0 v1 v2 v3 .
  with example_pending bad g0 g1 g2 show ?thesis by blast
qed

text \<open>
  C6. When all four videos are processable and no detection in any frame is of the class
  car, every per-frame count is 0, every \<^verbatim>\<open>detect_cars\<close> value is 0 (and so differs from
  the sentinel -1), and the stored report maps all four directions to 0.
\<close>

theorem zero_detections_report:
  assumes "first_pending activity_id (activities st) = Some k"
    and "classes_txt h = Some class_name"
    and "\<forall>v \<in> set (video_paths activity_id). carless h v"
    and "optimize_traffic [0, 0, 0, 0] = Some res"
  shows "(\<forall>v \<in> set (video_paths activity_id). \<forall>classes t.
            Detected classes t \<in> set (frames (video h v)) \<longrightarrow> car_count class_name classes = Inr 0)
    \<and> (\<forall>v \<in> set (video_paths activity_id). fst (detect_cars h v) = 0 \<and> fst (detect_cars h v) \<noteq> - 1)
    \<and> fst (approve_activity h optimize_traffic activity_id uuid_l now_l st) = (Success, 200)
    \<and> trafficCounts (activities (snd (approve_activity h optimize_traffic activity_id uuid_l now_l st)) ! k)
        = Some [(''north'', 0), (''south'', 0), (''east'', 0), (''west'', 0)]"
proof -
  from assms(1) have k: "k < length (activities st)" using first_pending_Some by blast
  have zero: "fst (detect_cars h v) = 0" if "v \<in> set (video_paths activity_id)" for v
    using that assms(3) detect_cars_carless by blast
  have z: "fst (detect_cars h (video_paths activity_id ! i)) = 0" if "i < 4" for i
    using that zero video_paths_nth_mem by blast
  have "map (\<lambda>v. fst (detect_cars h v)) (video_paths activity_id) = map (\<lambda>v. 0) (video_paths activity_id)"
    using zero by (intro map_cong) simp_all
  also have "\<dots> = [0, 0, 0, 0]"
    by (simp add: video_paths_def directions_def)
  finally have "optimize_traffic (map (\<lambda>v. fst (detect_cars h v)) (video_paths activity_id)) = Some res"
    using assms(4) by simp
  note ap = approve_pending [where h = h and optimize_traffic = optimize_traffic
        and activity_id = activity_id and st = st, OF assms(1) this]
  from k have "fst (approve_activity h optimize_traffic activity_id uuid_l now_l st) = (Success, 200)"
    and "trafficCounts (activities (snd (approve_activity h optimize_traffic activity_id uuid_l now_l st)) ! k)
        = Some [(''north'', 0), (''south'', 0), (''east'', 0), (''west'', 0)]"
    unfolding ap by (simp_all add: z)
  moreover have "\<forall>v \<in> set (video_paths activity_id). \<forall>classes t.
            Detected classes t \<in> set (frames (video h v)) \<longrightarrow> car_count class_name classes = Inr 0"
    using assms(2,3) carless_counts by blast
  moreover have "\<forall>v \<in> set (video_paths activity_id). fst (detect_cars h v) = 0 \<and> fst (detect_cars h v) \<noteq> - 1"
    using zero by simp
  ultimately show ?thesis by blast
qed

theorem zero_detections_report_witness:
  "first_pending ''a1'' (activities example_store) = Some 0
   \<and> classes_txt example_host_no_cars = Some [''person'', ''car'']
   \<and> carless example_host_no_cars ''uploads/a1/north.mp4''
   \<and> carless example_host_no_cars ''uploads/a1/south.mp4''
   \<and> carless example_host_no_cars ''uploads/a1/east.mp4''
   \<and> carless example_host_no_cars ''uploads/a1/west.mp4''
   \<and> trafficCounts (activities (snd (approve_activity example_host_no_cars Some ''a1'' ''l1'' ''t1'' example_store)) ! 0)
       = Some [(''north'', 0), (''south'', 0), (''east'', 0), (''west'', 0)]"
proof -
  have c: "classes_txt example_host_no_cars = Some [''person'', ''car'']"
    by (simp add: example_host_no_cars_def host_with_def)
  have g0: "carless example_host_no_cars ''uploads/a1/north.mp4''"
    by (simp add: carless_def example_host_no_cars_def host_with_def)
  have g1: "carless example_host_no_cars ''uploads/a1/south.mp4''"
    by (simp add: carless_def example_host_no_cars_def host_with_def)
  have g2: "carless example_host_no_cars ''uploads/a1/east.mp4''"
    by (simp add: carless_def example_host_no_cars_def host_with_def)
  have g3: "carless example_host_no_cars ''uploads/a1/west.mp4''"
    by (simp add: carless_def example_host_no_cars_def host_with_def)
  have all: "\<forall>v \<in> set (video_paths ''a1''). carless example_host_no_cars v"
    unfolding example_paths using g0 g1 g2 g3 by simp
  have opt: "Some [0, 0, 0, 0 :: rat] = Some [0, 0, 0, 0]" by (rule refl)
  from zero_detections_report
    [where h = example_host_no_cars and optimize_traffic = Some and activity_id = "''a1''"
       and st = example_store and uuid_l = "''l1''" and now_l = "''t1''",
     OF example_pending c all opt]
  have "trafficCounts (activities (snd (approve_activity example_host_no_cars Some ''a1'' ''l1'' ''t1'' example_store)) ! 0)
       = Some [(''north'', 0), (''south'', 0), (''east'', 0), (''west'', 0)]"
    by blast
  with example_pending c g0 g1 g2 g3 show ?thesis by blast
qed


text \<open>
  C7 (amended). If the class vocabulary lacks car, each call of \<^verbatim>\<open>detect_cars\<close> finds that
  out itself, before it opens its video, and returns the sentinel -1; approving a pending
  activity then stores a report with all four directions -1 (the optimizer returning a
  plan).
\<close>

theorem missing_car_class_gives_sentinel:
  assumes "classes_txt h = Some class_name" and "''car'' \<notin> set class_name"
  shows "detect_cars h p = (- 1, [])
    \<and> (first_pending activity_id (activities st) = Some k
         \<and> optimize_traffic [- 1, - 1, - 1, - 1] = Some res \<longrightarrow>
       fst (approve_activity h optimize_traffic activity_id uuid_l now_l st) = (Success, 200)
       \<and> status (activities (snd (approve_activity h optimize_traffic activity_id uuid_l now_l st)) ! k)
           = ''approved''
       \<and> trafficCounts (activities (snd (approve_activity h optimize_traffic activity_id uuid_l now_l st)) ! k)
           = Some [(''north'', - 1), (''south'', - 1), (''east'', - 1), (''west'', - 1)])"
proof (intro conjI impI)
  from assms show d: "detect_cars h p = (- 1, [])" for p by (rule detect_cars_no_car)
  assume a: "first_pending activity_id (activities st) = Some k
         \<and> optimize_traffic [- 1, - 1, - 1, - 1] = Some res"
  then have k: "k < length (activities st)" using first_pending_Some by blast
  have "map (\<lambda>v. fst (detect_cars h v)) (video_paths activity_id) = [- 1, - 1, - 1, - 1]"
    by (simp add: d video_paths_def directions_def)
  with a have "optimize_traffic (map (\<lambda>v. fst (detect_cars h v)) (video_paths activity_id)) = Some res"
    by simp
  note ap = approve_pending [where h = h and optimize_traffic = optimize_traffic
        and activity_id = activity_id and st = st, OF conjunct1 [OF a] this]
  from k show "fst (approve_activity h optimize_traffic activity_id uuid_l now_l st) = (Success, 200)"
    and "status (activities (snd (approve_activity h optimize_traffic activity_id uuid_l now_l st)) ! k)
           = ''approved''"
    and "trafficCounts (activities (snd (approve_activity h optimize_traffic activity_id uuid_l now_l st)) ! k)
           = Some [(''north'', - 1), (''south'', - 1), (''east'', - 1), (''west'', - 1)]"
    unfolding ap by (simp_all add: d)
qed

theorem missing_car_class_gives_sentinel_witness:
  "classes_txt example_host_no_class = Some [''person'', ''bicycle'']
   \<and> ''car'' \<notin> set [''person'', ''bicycle'']
   \<and> detect_cars example_host_no_class ''uploads/a1/north.mp4'' = (- 1, [])
   \<and> first_pending ''a1'' (activities example_store) = Some 0
   \<and> trafficCounts (activities (snd (approve_activity example_host_no_class Some ''a1'' ''l1'' ''t1'' example_store)) ! 0)
       = Some [(''north'', - 1), (''south'', - 1), (''east'', - 1), (''west'', - 1)]"
proof -
  have c: "classes_txt example_host_no_class = Some [''person'', ''bicycle'']"
    by (simp add: example_host_no_class_def host_with_def)
  have n: "''car'' \<notin> set [''person'', ''bicycle'']" by simp
  have opt: "Some [- 1, - 1, - 1, - 1 :: rat] = Some [- 1, - 1, - 1, - 1]" by (rule refl)
  from missing_car_class_gives_sentinel
    [where h = example_host_no_class and optimize_traffic = Some and activity_id = "''a1''"
       and st = example_store and uuid_l = "''l1''" and now_l = "''t1''" and k = 0
       and p = "''uploads/a1/north.mp4''" and res = "[- 1, - 1, - 1, - 1]",
     OF c n] example_pending opt c n
  show ?thesis by blast
qed

text \<open>
  C7 as stated fails: with a vocabulary without car nothing fails at start-up; the call
  for a video returns -1 and the approval succeeds with -1 in every direction.
\<close>

theorem missing_car_class_counterexample:
  "''car'' \<notin> set (the (classes_txt example_host_no_class))
   \<and> detect_cars example_host_no_class ''uploads/a1/north.mp4'' = (- 1, [])
   \<and> fst (approve_activity example_host_no_class Some ''a1'' ''l1'' ''t1'' example_store) = (Success, 200)
   \<and> trafficCounts (activities (snd (approve_activity example_host_no_class Some ''a1'' ''l1'' ''t1'' example_store)) ! 0)
       = Some [(''north'', - 1), (''south'', - 1), (''east'', - 1), (''west'', - 1)]"
  by (simp add: example_host_no_class_def host_with_def detect_cars_def detect_cars_try_def
      approve_activity_def example_store_def video_paths_def directions_def Let_def)

section \<open>Uploads and the activity life cycle\<close>

lemma save_videos_refuses:
  "length ds = length vs \<Longrightarrow> \<exists>v \<in> set vs. \<not> allowed_file v \<Longrightarrow>
   save_videos activity_id ds vs = None"
  by (induction ds vs rule: list_induct2) auto

lemma store_folders_same:
  assumes "folders st f = None"
  shows "st\<lparr>folders := (folders st)(f := None)\<rparr> = st"
proof -
  from assms have "(folders st)(f := None) = folders st" by (rule fun_upd_idem)
  then show ?thesis by simp
qed

lemma upload_invalid_cases:
  assumes "invalid_upload request"
  shows "upload_files request uuid_a uuid_l now_a now_l st =
     (case (request_videos request, request_userId request) of
        (Some vids, Some user_id) \<Rightarrow>
          if length vids \<noteq> 4 then ((Error ''Exactly 4 videos are required'', 400), st)
          else if folders st (path_join UPLOAD_FOLDER uuid_a) \<noteq> None then ((Uncaught, 500), st)
          else ((Error ''Invalid video file'', 400), st)
      | _ \<Rightarrow> ((Error ''Missing videos or userId'', 400), st))"
proof (cases "request_videos request")
  case None
  then show ?thesis by (simp add: upload_files_def)
next
  case vids: (Some vids)
  show ?thesis
  proof (cases "request_userId request")
    case None
    with vids show ?thesis by (simp add: upload_files_def)
  next
    case (Some user_id)
    show ?thesis
    proof (cases "length vids = 4")
      case False
      with vids Some show ?thesis by (simp add: upload_files_def)
    next
      case True
      with assms vids Some have "\<exists>v \<in> set vids. \<not> allowed_file v"
        by (simp add: invalid_upload_def)
      moreover from True have "length directions = length vids" by (simp add: directions_def)
      ultimately have "save_videos uuid_a directions vids = None"
        by (intro save_videos_refuses)
      with vids Some True show ?thesis
        by (simp add: upload_files_def Let_def store_folders_same)
    qed
  qed
qed

text \<open>
  C9. An upload that lacks the videos or the user id, has a number of videos other than
  4, or holds a file whose extension is not allowed, is answered with an error status
  and leaves everything as it was: no activity, no log entry and no user is added, and
  the upload directory holds the folders it held before (the folder made for the upload
  is removed again). The status is 400, or 500 from \<^verbatim>\<open>os.makedirs\<close> when a folder of the
  new id exists already.
\<close>

theorem upload_rejected_leaves_stores:
  assumes "invalid_upload request"
  shows "snd (upload_files request uuid_a uuid_l now_a now_l st) = st
    \<and> (snd (fst (upload_files request uuid_a uuid_l now_a now_l st)) = 400
       \<or> snd (fst (upload_files request uuid_a uuid_l now_a now_l st)) = 500
         \<and> folders st (path_join UPLOAD_FOLDER uuid_a) \<noteq> None)
    \<and> activities (snd (upload_files request uuid_a uuid_l now_a now_l st)) = activities st
    \<and> recent_activities (snd (upload_files request uuid_a uuid_l now_a now_l st)) = recent_activities st
    \<and> users (snd (upload_files request uuid_a uuid_l now_a now_l st)) = users st
    \<and> folders (snd (upload_files request uuid_a uuid_l now_a now_l st)) = folders st"
  unfolding upload_invalid_cases [OF assms]
  by (simp split: option.splits)

lemma allowed_notes: "\<not> allowed_file ''notes.txt''"
  by code_simp

lemma allowed_MOV: "allowed_file ''s.MOV''"
  by code_simp

theorem upload_rejected_leaves_stores_witness:
  "invalid_upload \<lparr>request_videos = Some [''n.mp4'', ''s.MOV'', ''notes.txt'', ''w.avi''],
                   request_userId = Some ''u2''\<rparr>
   \<and> snd (upload_files \<lparr>request_videos = Some [''n.mp4'', ''s.MOV'', ''notes.txt'', ''w.avi''],
                         request_userId = Some ''u2''\<rparr> ''a2'' ''l2'' ''t2'' ''t3'' example_store)
       = example_store
   \<and> folders example_store (path_join UPLOAD_FOLDER ''a2'') = None"
proof -
  have i: "invalid_upload \<lparr>request_videos = Some [''n.mp4'', ''s.MOV'', ''notes.txt'', ''w.avi''],
                   request_userId = Some ''u2''\<rparr>"
    by (simp add: invalid_upload_def allowed_notes)
  have f: "folders example_store (path_join UPLOAD_FOLDER ''a2'') = None"
    by (simp add: example_store_def path_join_def UPLOAD_FOLDER_def)
  from upload_rejected_leaves_stores [OF i, of "''a2''" "''l2''" "''t2''" "''t3''" example_store] i f
  show ?thesis by blast
qed


lemma not_pending_None:
  "(\<forall>a \<in> set acts. id_a a = activity_id \<longrightarrow> status a \<noteq> ''pending'') \<Longrightarrow>
   first_pending activity_id acts = None"
  unfolding first_pending_None by blast

lemma approve_not_found:
  "first_pending activity_id (activities st) = None \<Longrightarrow>
   approve_activity h optimize_traffic activity_id uuid_l now_l st =
     ((Error ''Activity not found or already processed'', 404), st)"
  by (simp add: approve_activity_def)

lemma reject_not_found:
  "first_pending activity_id (activities st) = None \<Longrightarrow>
   reject_activity activity_id uuid_l now_l st =
     ((Error ''Activity not found or already processed'', 404), st)"
  by (simp add: reject_activity_def)

lemma approve_activities:
  "activities (snd (approve_activity h optimize_traffic activity_id uuid_l now_l st)) = activities st
   \<and> snd (fst (approve_activity h optimize_traffic activity_id uuid_l now_l st)) \<noteq> 200
   \<or> (\<exists>k res tc. first_pending activity_id (activities st) = Some k
        \<and> snd (fst (approve_activity h optimize_traffic activity_id uuid_l now_l st)) = 200
        \<and> activities (snd (approve_activity h optimize_traffic activity_id uuid_l now_l st)) =
            (activities st)[k := (activities st ! k)\<lparr>status := ''approved'', result := Some res,
                                                    trafficCounts := Some tc\<rparr>])"
proof (cases "first_pending activity_id (activities st)")
  case None
  then show ?thesis by (simp add: approve_activity_def)
next
  case (Some k)
  show ?thesis
  proof (cases "optimize_traffic (map (\<lambda>v. fst (detect_cars h v)) (video_paths activity_id))")
    case None
    with Some show ?thesis by (simp add: approve_activity_def Let_def)
  next
    case res: (Some res)
    have "activities (snd (approve_activity h optimize_traffic activity_id uuid_l now_l st)) =
            (activities st)[k := (activities st ! k)\<lparr>status := ''approved'', result := Some res,
               trafficCounts := Some
                     [(''north'', fst (detect_cars h (video_paths activity_id ! 0))),
                      (''south'', fst (detect_cars h (video_paths activity_id ! 1))),
                      (''east'', fst (detect_cars h (video_paths activity_id ! 2))),
                      (''west'', fst (detect_cars h (video_paths activity_id ! 3)))]\<rparr>]"
      and "snd (fst (approve_activity h optimize_traffic activity_id uuid_l now_l st)) = 200"
      unfolding approve_pending [where h = h and optimize_traffic = optimize_traffic
        and activity_id = activity_id and st = st, OF Some res]
      by simp_all
    with Some show ?thesis by blast
  qed
qed

lemma reject_activities:
  "activities (snd (reject_activity activity_id uuid_l now_l st)) = activities st
   \<and> snd (fst (reject_activity activity_id uuid_l now_l st)) \<noteq> 200
   \<or> (\<exists>k. first_pending activity_id (activities st) = Some k
        \<and> snd (fst (reject_activity activity_id uuid_l now_l st)) = 200
        \<and> activities (snd (reject_activity activity_id uuid_l now_l st)) =
            (activities st)[k := (activities st ! k)\<lparr>status := ''rejected''\<rparr>])"
  by (cases "first_pending activity_id (activities st)") (simp_all add: reject_activity_def Let_def)

lemma update_keeps_settled:
  assumes "first_pending activity_id acts = Some k" and "status (acts ! i) \<noteq> ''pending''"
  shows "acts[k := a] ! i = acts ! i"
proof -
  from assms(1) have "status (acts ! k) = ''pending''" using first_pending_Some by blast
  with assms(2) have "i \<noteq> k" by auto
  then show ?thesis by simp
qed

text \<open>
  C10. When no activity with the given id is pending, approve and reject answer 404 and
  change nothing. An approve or reject that answers 200 found a pending activity with
  that id and changed that one only: to approved, with a result and traffic counts, or to
  rejected. In every case an activity whose status is not pending stays exactly as it
  was, so an approved activity is never processed again.
\<close>

theorem status_leaves_only_pending:
  "((\<forall>a \<in> set (activities st). id_a a = activity_id \<longrightarrow> status a \<noteq> ''pending'') \<longrightarrow>
      approve_activity h optimize_traffic activity_id uuid_l now_l st =
        ((Error ''Activity not found or already processed'', 404), st)
      \<and> reject_activity activity_id uuid_l now_l st =
        ((Error ''Activity not found or already processed'', 404), st))
   \<and> (snd (fst (approve_activity h optimize_traffic activity_id uuid_l now_l st)) = 200 \<longrightarrow>
        (\<exists>k res tc. k < length (activities st) \<and> id_a (activities st ! k) = activity_id
           \<and> status (activities st ! k) = ''pending''
           \<and> activities (snd (approve_activity h optimize_traffic activity_id uuid_l now_l st)) =
               (activities st)[k := (activities st ! k)\<lparr>status := ''approved'', result := Some res,
                                                       trafficCounts := Some tc\<rparr>]))
   \<and> (snd (fst (reject_activity activity_id uuid_l now_l st)) = 200 \<longrightarrow>
        (\<exists>k. k < length (activities st) \<and> id_a (activities st ! k) = activity_id
           \<and> status (activities st ! k) = ''pending''
           \<and> activities (snd (reject_activity activity_id uuid_l now_l st)) =
               (activities st)[k := (activities st ! k)\<lparr>status := ''rejected''\<rparr>]))
   \<and> (\<forall>i < length (activities st). status (activities st ! i) \<noteq> ''pending'' \<longrightarrow>
        activities (snd (approve_activity h optimize_traffic activity_id uuid_l now_l st)) ! i
          = activities st ! i
        \<and> activities (snd (reject_activity activity_id uuid_l now_l st)) ! i = activities st ! i)"
proof (intro conjI impI allI)
  assume "\<forall>a \<in> set (activities st). id_a a = activity_id \<longrightarrow> status a \<noteq> ''pending''"
  then have none: "first_pending activity_id (activities st) = None" by (rule not_pending_None)
  then show "approve_activity h optimize_traffic activity_id uuid_l now_l st =
        ((Error ''Activity not found or already processed'', 404), st)"
    by (rule approve_not_found)
  from none show "reject_activity activity_id uuid_l now_l st =
        ((Error ''Activity not found or already processed'', 404), st)"
    by (rule reject_not_found)
next
  assume "snd (fst (approve_activity h optimize_traffic activity_id uuid_l now_l st)) = 200"
  with approve_activities [of h optimize_traffic activity_id uuid_l now_l st]
  obtain k res tc where "first_pending activity_id (activities st) = Some k"
    and "activities (snd (approve_activity h optimize_traffic activity_id uuid_l now_l st)) =
            (activities st)[k := (activities st ! k)\<lparr>status := ''approved'', result := Some res,
                                                    trafficCounts := Some tc\<rparr>]"
    by blast
  with first_pending_Some [of activity_id "activities st" k]
  show "\<exists>k res tc. k < length (activities st) \<and> id_a (activities st ! k) = activity_id
           \<and> status (activities st ! k) = ''pending''
           \<and> activities (snd (approve_activity h optimize_traffic activity_id uuid_l now_l st)) =
               (activities st)[k := (activities st ! k)\<lparr>status := ''approved'', result := Some res,
                                                       trafficCounts := Some tc\<rparr>]"
    by blast
next
  assume "snd (fst (reject_activity activity_id uuid_l now_l st)) = 200"
  with reject_activities [of activity_id uuid_l now_l st]
  obtain k where "first_pending activity_id (activities st) = Some k"
    and "activities (snd (reject_activity activity_id uuid_l now_l st)) =
            (activities st)[k := (activities st ! k)\<lparr>status := ''rejected''\<rparr>]"
    by blast
  with first_pending_Some [of activity_id "activities st" k]
  show "\<exists>k. k < length (activities st) \<and> id_a (activities st ! k) = activity_id
           \<and> status (activities st ! k) = ''pending''
           \<and> activities (snd (reject_activity activity_id uuid_l now_l st)) =
               (activities st)[k := (activities st ! k)\<lparr>status := ''rejected''\<rparr>]"
    by blast
next
  fix i
  assume "i < length (activities st)" and settled: "status (activities st ! i) \<noteq> ''pending''"
  from approve_activities [of h optimize_traffic activity_id uuid_l now_l st]
  show "activities (snd (approve_activity h optimize_traffic activity_id uuid_l now_l st)) ! i
          = activities st ! i"
    using settled update_keeps_settled [of activity_id "activities st" _ i] by metis
next
  fix i
  assume "i < length (activities st)" and settled: "status (activities st ! i) \<noteq> ''pending''"
  from reject_activities [of activity_id uuid_l now_l st]
  show "activities (snd (reject_activity activity_id uuid_l now_l st)) ! i = activities st ! i"
    using settled update_keeps_settled [of activity_id "activities st" _ i] by metis
qed

theorem status_leaves_only_pending_witness:
  "approve_activity example_host Some ''a0'' ''l1'' ''t1'' example_store =
     ((Error ''Activity not found or already processed'', 404), example_store)
   \<and> reject_activity ''a0'' ''l1'' ''t1'' example_store =
     ((Error ''Activity not found or already processed'', 404), example_store)
   \<and> status (activities example_store ! 1) = ''approved''
   \<and> activities (snd (approve_activity example_host Some ''a1'' ''l1'' ''t1'' example_store)) ! 1
       = activities example_store ! 1
   \<and> activities (snd (reject_activity ''a1'' ''l1'' ''t1'' example_store)) ! 1
       = activities example_store ! 1
   \<and> snd (fst (reject_activity ''a1'' ''l1'' ''t1'' example_store)) = 200
   \<and> status (activities (snd (reject_activity ''a1'' ''l1'' ''t1'' example_store)) ! 0) = ''rejected''"
proof -
  have a: "\<forall>a \<in> set (activities example_store). id_a a = ''a0'' \<longrightarrow> status a \<noteq> ''pending''"
    by (simp add: example_store_def)
  have b: "(1 :: nat) < length (activities example_store)"
    and c: "status (activities example_store ! 1) \<noteq> ''pending''"
    and d: "status (activities example_store ! 1) = ''approved''"
    by (simp_all add: example_store_def)
  have e: "snd (fst (reject_activity ''a1'' ''l1'' ''t1'' example_store)) = 200"
    and f: "status (activities (snd (reject_activity ''a1'' ''l1'' ''t1'' example_store)) ! 0) = ''rejected''"
    by (simp_all add: reject_activity_def example_store_def)
  note t0 = status_leaves_only_pending [where st = example_store and activity_id = "''a0''"
      and h = example_host and optimize_traffic = Some and uuid_l = "''l1''" and now_l = "''t1''"]
  note t1 = status_leaves_only_pending [where st = example_store and activity_id = "''a1''"
      and h = example_host and optimize_traffic = Some and uuid_l = "''l1''" and now_l = "''t1''"]
  from t0 a have "approve_activity example_host Some ''a0'' ''l1'' ''t1'' example_store =
     ((Error ''Activity not found or already processed'', 404), example_store)
   \<and> reject_activity ''a0'' ''l1'' ''t1'' example_store =
     ((Error ''Activity not found or already processed'', 404), example_store)"
    by blast
  moreover from t1 b c have "activities (snd (approve_activity example_host Some ''a1'' ''l1'' ''t1'' example_store)) ! 1
       = activities example_store ! 1
   \<and> activities (snd (reject_activity ''a1'' ''l1'' ''t1'' example_store)) ! 1
       = activities example_store ! 1"
    by blast
  ultimately show ?thesis using d e f by blast
qed

end
